theory Spec2Isabelle
  imports Main "HOL-Library.Word"
begin

unbundle bit_operations_syntax

section \<open>ExFatLogger: data model\<close>

text \<open>
  A shallow embedding of \<^verbatim>\<open>examples/ExFatLogger/ExFatLogger.ino\<close>: the record codec
  (\<^verbatim>\<open>logRecord\<close>, \<^verbatim>\<open>printRecord\<close>) and the acquisition loop \<^verbatim>\<open>logData\<close>.
\<close>

type_synonym u16 = "16 word"
type_synonym u32 = "32 word"

text \<open>
  \<^verbatim>\<open>ExFatLogger.h\<close> (which declares \<^verbatim>\<open>ADC_COUNT\<close> and \<^verbatim>\<open>struct data_t\<close>) is not part
  of the sources, and \<^verbatim>\<open>FIFO_SIZE_SECTORS\<close> and the width of \<^verbatim>\<open>size_t\<close> depend on the
  board. They are the parameters of the model.
\<close>

record config =
  ADC_COUNT :: nat          \<comment> \<open>number of channels of a record\<close>
  SIZEOF_DATA :: nat        \<comment> \<open>\<^verbatim>\<open>sizeof(data_t)\<close> in bytes\<close>
  FIFO_SIZE_SECTORS :: nat  \<comment> \<open>1, 4 or 16 in the source, by board\<close>
  SIZE_BITS :: nat          \<comment> \<open>width of \<^verbatim>\<open>size_t\<close>: 16 on AVR, 32 elsewhere\<close>

text \<open>The record type: the code only ever touches \<^verbatim>\<open>data->adc[i]\<close>, a \<^verbatim>\<open>uint16_t\<close>.\<close>

record data_t =
  adc :: "u16 list"

definition LOG_INTERVAL_USEC :: u32 where
  "LOG_INTERVAL_USEC = 2000"

definition ERROR_LED_PIN :: int where
  "ERROR_LED_PIN = - 1"

text \<open>\<^verbatim>\<open>const size_t FIFO_DIM = 512*FIFO_SIZE_SECTORS/sizeof(data_t);\<close>\<close>

definition FIFO_DIM :: "config \<Rightarrow> nat" where
  "FIFO_DIM cfg = 512 * FIFO_SIZE_SECTORS cfg div SIZEOF_DATA cfg"

text \<open>\<^verbatim>\<open>const size_t MAX_WRITE = 512/sizeof(data_t);\<close>\<close>

definition MAX_WRITE :: "config \<Rightarrow> nat" where
  "MAX_WRITE cfg = 512 div SIZEOF_DATA cfg"

text \<open>Arithmetic on \<^verbatim>\<open>size_t\<close>: unsigned, wrapping at \<open>2 ^ SIZE_BITS\<close>.\<close>

definition sz_add :: "config \<Rightarrow> nat \<Rightarrow> nat \<Rightarrow> nat" where
  "sz_add cfg a b = (a + b) mod 2 ^ SIZE_BITS cfg"

definition sz_sub :: "config \<Rightarrow> nat \<Rightarrow> nat \<Rightarrow> nat" where
  "sz_sub cfg a b = (a + 2 ^ SIZE_BITS cfg - b mod 2 ^ SIZE_BITS cfg) mod 2 ^ SIZE_BITS cfg"

definition sz_mul :: "config \<Rightarrow> nat \<Rightarrow> nat \<Rightarrow> nat" where
  "sz_mul cfg a b = (a * b) mod 2 ^ SIZE_BITS cfg"

section \<open>Record codec\<close>

text \<open>
  \<^verbatim>\<open>void logRecord(data_t* data, uint16_t overrun)\<close>. The record is updated in place; the
  model returns the new record. \<open>analogRead\<close> is the sensor (an \<^verbatim>\<open>int\<close>, stored into a
  \<^verbatim>\<open>uint16_t\<close>). In the overrun branch only \<^verbatim>\<open>adc[0]\<close> is assigned.
\<close>

definition logRecord :: "config \<Rightarrow> (nat \<Rightarrow> int) \<Rightarrow> data_t \<Rightarrow> u16 \<Rightarrow> data_t" where
  "logRecord cfg analogRead data overrun =
     (if overrun \<noteq> 0 then
        let overrun' = overrun + 1
        in data\<lparr>adc := (adc data)[0 := 0x8000 OR overrun']\<rparr>
      else
        data\<lparr>adc := fold (\<lambda>i a. a[i := word_of_int (analogRead i)]) [0..<ADC_COUNT cfg] (adc data)\<rparr>)"

text \<open>What \<^verbatim>\<open>printRecord\<close> sends to its \<^verbatim>\<open>Print*\<close>, one item per \<^verbatim>\<open>print\<close> call.\<close>

datatype pr_item =
  PrStr string | PrU32 u32 | PrU16 u16 | PrSize nat | PrChar char | PrLn

text \<open>
  \<^verbatim>\<open>void printRecord(Print* pr, data_t* data)\<close>, with the \<^verbatim>\<open>static uint32_t nr\<close> passed in
  and returned; \<open>None\<close> is the \<^verbatim>\<open>nullptr\<close> call that prints the header.
\<close>

fun printRecord :: "config \<Rightarrow> u32 \<Rightarrow> data_t option \<Rightarrow> u32 \<times> pr_item list" where
  "printRecord cfg nr None =
     (0, [PrStr ''LOG_INTERVAL_USEC,'', PrU32 LOG_INTERVAL_USEC, PrLn, PrStr ''rec#'']
         @ concat (map (\<lambda>i. [PrStr '',adc'', PrSize i]) [0..<ADC_COUNT cfg])
         @ [PrLn])"
| "printRecord cfg nr (Some data) =
     (if adc data ! 0 AND 0x8000 \<noteq> 0 then
        let n = adc data ! 0 AND 0x7FFF
        in (nr + ucast n, [PrStr ''-1,'', PrU16 n, PrStr '',overuns'', PrLn])
      else
        (nr + 1, [PrU32 nr]
                 @ concat (map (\<lambda>i. [PrChar CHR '','', PrU16 (adc data ! i)]) [0..<ADC_COUNT cfg])
                 @ [PrLn]))"

section \<open>The acquisition loop \<^verbatim>\<open>logData\<close>\<close>

text \<open>
  The local variables of \<^verbatim>\<open>logData\<close> (lines 249--260 and 275), followed by the effects of
  the loop on its surroundings: the records appended to \<^verbatim>\<open>binFile\<close>, the error LED, and
  the number of calls of \<^verbatim>\<open>Serial.available()\<close> made by the loop. The two \<^verbatim>\<open>int32_t\<close>
  variables are 32-bit words read as two's complement (\<open><s\<close>); the \<^verbatim>\<open>size_t\<close>
  variables are naturals on which every operation wraps (\<open>sz_add\<close>, \<open>sz_sub\<close>).
\<close>

record log_state =
  delta :: u32
  maxDelta :: u32
  maxLogMicros :: u32
  maxWriteMicros :: u32
  maxFifoCount :: nat
  fifoCount :: nat
  fifoHead :: nat
  fifoTail :: nat
  overrun :: u16
  maxOverrun :: u16
  totalOverrun :: u32
  fifoData :: "data_t list"
  logTime :: u32
  binFile :: "data_t list"
  errorLed :: bool
  availCalls :: nat

text \<open>
  What the surroundings answer during one iteration of \<^verbatim>\<open>while (1)\<close>; the clock readings
  are named after the line of the \<^verbatim>\<open>micros()\<close> call. \<open>micros_288\<close> lists the successive
  readings of the busy-wait, \<open>write_ret\<close> is the value returned by \<^verbatim>\<open>binFile.write\<close>.
\<close>

record iter_in =
  micros_281 :: u32
  micros_288 :: "u32 list"
  micros_292 :: u32
  analogRead :: "nat \<Rightarrow> int"
  micros_294 :: u32
  isBusy :: bool
  micros_328 :: u32
  write_ret :: nat
  micros_332 :: u32
  available :: int

text \<open>
  The \<^verbatim>\<open>error(s)\<close> macro prints \<open>s\<close> and calls \<^verbatim>\<open>errorHalt()\<close>, which never returns.
\<close>

datatype error = Rate_too_fast | Too_many_overruns | Write_binFile_failed

text \<open>
  How a piece of the loop body ends: control goes on (\<open>Next\<close>), the loop is left by
  \<^verbatim>\<open>break\<close>, the session halts in \<^verbatim>\<open>error\<close>, or an access falls outside
  \<^verbatim>\<open>fifoData[FIFO_DIM]\<close> (undefined behaviour in C++).
\<close>

datatype outcome =
  Next log_state | Break log_state | Halt error log_state | Out_of_bounds

text \<open>Lines 249--260 and 275. \<^verbatim>\<open>delta\<close> and \<^verbatim>\<open>fifoData\<close> start uninitialised.\<close>

definition init_state :: "u32 \<Rightarrow> u32 \<Rightarrow> data_t list \<Rightarrow> log_state" where
  "init_state micros_275 delta_uninit fifo_uninit =
     \<lparr>delta = delta_uninit, maxDelta = 0, maxLogMicros = 0, maxWriteMicros = 0,
      maxFifoCount = 0, fifoCount = 0, fifoHead = 0, fifoTail = 0,
      overrun = 0, maxOverrun = 0, totalOverrun = 0,
      fifoData = fifo_uninit, logTime = micros_275,
      binFile = [], errorLed = False, availCalls = 0\<rparr>"

text \<open>
  Lines 287--289, \<^verbatim>\<open>while (delta < 0) delta = micros() - logTime;\<close> over the readings the
  clock gives. \<open>None\<close>: the readings are used up and the loop is still spinning.
\<close>

fun wait_loop :: "u32 \<Rightarrow> u32 \<Rightarrow> u32 list \<Rightarrow> u32 option" where
  "wait_loop lt d [] = (if d <s 0 then None else Some d)"
| "wait_loop lt d (t # ts) = (if d <s 0 then wait_loop lt (t - lt) ts else Some d)"

text \<open>Lines 278--289.\<close>

definition wait_phase :: "iter_in \<Rightarrow> log_state \<Rightarrow> outcome option" where
  "wait_phase inp s =
     (let logTime' = logTime s + LOG_INTERVAL_USEC;
          delta' = micros_281 inp - logTime';
          s1 = s\<lparr>logTime := logTime', delta := delta'\<rparr>
      in if 0 <s delta' then Some (Halt Rate_too_fast s1)
         else (case wait_loop logTime' delta' (micros_288 inp) of
                 None \<Rightarrow> None
               | Some d \<Rightarrow> Some (Next (s1\<lparr>delta := d\<rparr>))))"

text \<open>Lines 291--315.\<close>

definition push_phase :: "config \<Rightarrow> iter_in \<Rightarrow> log_state \<Rightarrow> outcome" where
  "push_phase cfg inp s =
     (if fifoCount s < FIFO_DIM cfg then
        if fifoHead s < FIFO_DIM cfg then
          let m = micros_294 inp - micros_292 inp;
              r = logRecord cfg (analogRead inp) (fifoData s ! fifoHead s) (overrun s);
              s1 = s\<lparr>fifoData := (fifoData s)[fifoHead s := r]\<rparr>;
              s2 = (if maxLogMicros s1 < m then s1\<lparr>maxLogMicros := m\<rparr> else s1);
              s3 = s2\<lparr>fifoHead := (if fifoHead s2 < sz_sub cfg (FIFO_DIM cfg) 1
                                     then sz_add cfg (fifoHead s2) 1 else 0)\<rparr>;
              s4 = s3\<lparr>fifoCount := sz_add cfg (fifoCount s3) 1\<rparr>
          in Next (if overrun s4 \<noteq> 0 then
                     (if maxOverrun s4 < overrun s4 then s4\<lparr>maxOverrun := overrun s4\<rparr> else s4)
                       \<lparr>overrun := 0\<rparr>
                   else s4)
        else Out_of_bounds
      else
        let s1 = s\<lparr>totalOverrun := totalOverrun s + 1\<rparr>;
            s2 = s1\<lparr>overrun := overrun s1 + 1\<rparr>
        in if 0xFFF < overrun s2 then Halt Too_many_overruns s2
           else Next (if 0 \<le> ERROR_LED_PIN then s2\<lparr>errorLed := True\<rparr> else s2))"

text \<open>Lines 318--320, a signed comparison.\<close>

definition save_jitter :: "log_state \<Rightarrow> log_state" where
  "save_jitter s = (if maxDelta s <s delta s then s\<lparr>maxDelta := delta s\<rparr> else s)"

text \<open>Lines 323--326: the number \<^verbatim>\<open>nw\<close> of records handed to one write.\<close>

definition write_count :: "config \<Rightarrow> log_state \<Rightarrow> nat" where
  "write_count cfg s =
     (let nw = (if fifoTail s < fifoHead s then fifoCount s
                else sz_sub cfg (FIFO_DIM cfg) (fifoTail s))
      in if MAX_WRITE cfg < nw then MAX_WRITE cfg else nw)"

text \<open>
  Lines 322--344. \<^verbatim>\<open>binFile.write(&fifoData[fifoTail], nb)\<close> reads the \<open>nw\<close> records that
  start at \<open>fifoTail\<close>; a write that returns \<open>nb\<close> has appended them to the file.
\<close>

definition write_phase :: "config \<Rightarrow> iter_in \<Rightarrow> log_state \<Rightarrow> outcome" where
  "write_phase cfg inp s =
     (if \<not> isBusy inp then
        let nw = write_count cfg s;
            nb = sz_mul cfg nw (SIZEOF_DATA cfg)
        in if FIFO_DIM cfg < fifoTail s + nw then Out_of_bounds
           else if nb \<noteq> write_ret inp then Halt Write_binFile_failed s
           else
             let usec = micros_332 inp - micros_328 inp;
                 s1 = s\<lparr>binFile := binFile s @ take nw (drop (fifoTail s) (fifoData s))\<rparr>;
                 s2 = (if maxWriteMicros s1 < usec then s1\<lparr>maxWriteMicros := usec\<rparr> else s1);
                 s3 = s2\<lparr>fifoTail := (if sz_add cfg (fifoTail s2) nw < FIFO_DIM cfg
                                        then sz_add cfg (fifoTail s2) nw else 0)\<rparr>;
                 s4 = (if maxFifoCount s3 < fifoCount s3
                       then s3\<lparr>maxFifoCount := fifoCount s3\<rparr> else s3);
                 s5 = s4\<lparr>fifoCount := sz_sub cfg (fifoCount s4) nw\<rparr>;
                 s6 = s5\<lparr>availCalls := availCalls s5 + 1\<rparr>
             in if available inp \<noteq> 0 then Break s6 else Next s6
      else Next s)"

text \<open>Lines 278--320: the body of the loop up to the write.\<close>

definition sample_phase :: "config \<Rightarrow> iter_in \<Rightarrow> log_state \<Rightarrow> outcome option" where
  "sample_phase cfg inp s =
     (case wait_phase inp s of
        None \<Rightarrow> None
      | Some (Next s1) \<Rightarrow>
          (case push_phase cfg inp s1 of
             Next s2 \<Rightarrow> Some (Next (save_jitter s2))
           | r \<Rightarrow> Some r)
      | Some r \<Rightarrow> Some r)"

text \<open>One pass through the body of \<^verbatim>\<open>while (1)\<close>, lines 277--344.\<close>

definition iteration :: "config \<Rightarrow> log_state \<Rightarrow> iter_in \<Rightarrow> outcome option" where
  "iteration cfg s inp =
     (case sample_phase cfg inp s of
        Some (Next s2) \<Rightarrow> Some (write_phase cfg inp s2)
      | r \<Rightarrow> r)"

text \<open>
  The loop, run on the inputs of its successive iterations. \<open>Some (Next s)\<close>: the inputs
  are used up and the loop is at its head in state \<open>s\<close>.
\<close>

fun logLoop :: "config \<Rightarrow> log_state \<Rightarrow> iter_in list \<Rightarrow> outcome option" where
  "logLoop cfg s [] = Some (Next s)"
| "logLoop cfg s (inp # inps) =
     (case iteration cfg s inp of
        Some (Next s') \<Rightarrow> logLoop cfg s' inps
      | r \<Rightarrow> r)"

section \<open>Well-formed configurations and reachable states\<close>

text \<open>
  The buffer has at least one slot and its size fits \<^verbatim>\<open>size_t\<close>, which has at least 16
  bits; a record has at least one channel.
\<close>

definition wf_config :: "config \<Rightarrow> bool" where
  "wf_config cfg \<longleftrightarrow>
     0 < ADC_COUNT cfg \<and> 0 < SIZEOF_DATA cfg \<and> 0 < FIFO_DIM cfg \<and>
     16 \<le> SIZE_BITS cfg \<and> FIFO_DIM cfg < 2 ^ SIZE_BITS cfg"

text \<open>The array \<^verbatim>\<open>data_t fifoData[FIFO_DIM]\<close> of records \<^verbatim>\<open>uint16_t adc[ADC_COUNT]\<close>.\<close>

definition wf_fifo :: "config \<Rightarrow> data_t list \<Rightarrow> bool" where
  "wf_fifo cfg ds \<longleftrightarrow>
     length ds = FIFO_DIM cfg \<and> list_all (\<lambda>d. length (adc d) = ADC_COUNT cfg) ds"

text \<open>
  The states the loop reaches, by the point of the body: at the head of \<^verbatim>\<open>while (1)\<close>,
  before the write of line 322, and after \<^verbatim>\<open>break\<close>.
\<close>

datatype point = At_head | At_write | At_exit

inductive reach :: "config \<Rightarrow> point \<Rightarrow> log_state \<Rightarrow> bool" for cfg :: config where
  reach_init: "wf_fifo cfg ds \<Longrightarrow> reach cfg At_head (init_state t d ds)"
| reach_sample: "reach cfg At_head s \<Longrightarrow> sample_phase cfg inp s = Some (Next s') \<Longrightarrow>
                 reach cfg At_write s'"
| reach_next: "reach cfg At_write s \<Longrightarrow> write_phase cfg inp s = Next s' \<Longrightarrow>
               reach cfg At_head s'"
| reach_break: "reach cfg At_write s \<Longrightarrow> write_phase cfg inp s = Break s' \<Longrightarrow>
                reach cfg At_exit s'"

text \<open>
  The invariant of the ring buffer: the bounds, and \<open>fifoHead\<close> lying \<open>fifoCount\<close> slots
  after \<open>fifoTail\<close> around the ring; with it, the bound on the pending overrun streak.
\<close>

definition ring_inv :: "config \<Rightarrow> log_state \<Rightarrow> bool" where
  "ring_inv cfg s \<longleftrightarrow>
     wf_fifo cfg (fifoData s) \<and> fifoCount s \<le> FIFO_DIM cfg \<and>
     fifoHead s < FIFO_DIM cfg \<and> fifoTail s < FIFO_DIM cfg \<and>
     fifoHead s = (fifoTail s + fifoCount s) mod FIFO_DIM cfg \<and>
     overrun s \<le> 0xFFF"

text \<open>The state after a write that was issued and succeeded.\<close>

definition written :: "config \<Rightarrow> iter_in \<Rightarrow> log_state \<Rightarrow> log_state" where
  "written cfg inp s =
     (let nw = write_count cfg s; usec = micros_332 inp - micros_328 inp
      in s\<lparr>binFile := binFile s @ take nw (drop (fifoTail s) (fifoData s)),
           maxWriteMicros := (if maxWriteMicros s < usec then usec else maxWriteMicros s),
           fifoTail := (if sz_add cfg (fifoTail s) nw < FIFO_DIM cfg
                        then sz_add cfg (fifoTail s) nw else 0),
           maxFifoCount := (if maxFifoCount s < fifoCount s then fifoCount s else maxFifoCount s),
           fifoCount := sz_sub cfg (fifoCount s) nw,
           availCalls := availCalls s + 1\<rparr>)"

text \<open>
  The records waiting in the ring, oldest first: the \<open>fifoCount\<close> slots from \<open>fifoTail\<close> on,
  around the end of the array.
\<close>

definition buffered :: "config \<Rightarrow> log_state \<Rightarrow> data_t list" where
  "buffered cfg s =
     map (\<lambda>i. fifoData s ! ((fifoTail s + i) mod FIFO_DIM cfg)) [0..<fifoCount s]"

section \<open>Example configurations\<close>

text \<open>
  An ATmega328P board (one sector of FIFO, 16-bit \<^verbatim>\<open>size_t\<close>) logging four channels in
  records of eight bytes: 64 FIFO entries.
\<close>

definition cfg_328 :: config where
  "cfg_328 = \<lparr>ADC_COUNT = 4, SIZEOF_DATA = 8, FIFO_SIZE_SECTORS = 1, SIZE_BITS = 16\<rparr>"

text \<open>
  The board before the first iteration, one iteration whose write finds the card idle, and
  the state that iteration reaches before its write.
\<close>

definition fifo_328 :: "data_t list" where
  "fifo_328 = replicate 64 \<lparr>adc = [0, 0, 0, 0]\<rparr>"

definition inp_idle :: iter_in where
  "inp_idle = \<lparr>micros_281 = 2990, micros_288 = [2996, 3002, 3008], micros_292 = 3010,
     analogRead = (\<lambda>i. 100 + int i), micros_294 = 3110, isBusy = False,
     micros_328 = 3120, write_ret = 8, micros_332 = 3300, available = 0\<rparr>"

definition s1_328 :: log_state where
  "s1_328 = \<lparr>delta = 2, maxDelta = 2, maxLogMicros = 100, maxWriteMicros = 0,
      maxFifoCount = 0, fifoCount = 1, fifoHead = 1, fifoTail = 0,
      overrun = 0, maxOverrun = 0, totalOverrun = 0,
      fifoData = fifo_328[0 := \<lparr>adc = [100, 101, 102, 103]\<rparr>], logTime = 3000,
      binFile = [], errorLed = False, availCalls = 0\<rparr>"

text \<open>
  The state after that whole iteration; a second iteration that starts early, spins twice
  and fires 7 microseconds late, with the card busy and a character waiting on the serial
  line; and the state after both.
\<close>

definition s2_328 :: log_state where
  "s2_328 = \<lparr>delta = 2, maxDelta = 2, maxLogMicros = 100, maxWriteMicros = 180,
      maxFifoCount = 1, fifoCount = 0, fifoHead = 1, fifoTail = 1,
      overrun = 0, maxOverrun = 0, totalOverrun = 0,
      fifoData = fifo_328[0 := \<lparr>adc = [100, 101, 102, 103]\<rparr>], logTime = 3000,
      binFile = [\<lparr>adc = [100, 101, 102, 103]\<rparr>], errorLed = False, availCalls = 1\<rparr>"

definition inp_late :: iter_in where
  "inp_late = \<lparr>micros_281 = 4000, micros_288 = [4500, 5007], micros_292 = 5010,
     analogRead = (\<lambda>i. 200 + int i), micros_294 = 5090, isBusy = True,
     micros_328 = 0, write_ret = 0, micros_332 = 0, available = 1\<rparr>"

definition s3_328 :: log_state where
  "s3_328 = \<lparr>delta = 7, maxDelta = 7, maxLogMicros = 100, maxWriteMicros = 180,
      maxFifoCount = 1, fifoCount = 1, fifoHead = 2, fifoTail = 1,
      overrun = 0, maxOverrun = 0, totalOverrun = 0,
      fifoData = fifo_328[0 := \<lparr>adc = [100, 101, 102, 103]\<rparr>,
                          1 := \<lparr>adc = [200, 201, 202, 203]\<rparr>], logTime = 5000,
      binFile = [\<lparr>adc = [100, 101, 102, 103]\<rparr>], errorLed = False, availCalls = 1\<rparr>"

text \<open>
  A full buffer with four overruns pending, and an iteration that fires on time while the
  card is busy.
\<close>

definition s_full_328 :: log_state where
  "s_full_328 = \<lparr>delta = 0, maxDelta = 7, maxLogMicros = 100, maxWriteMicros = 180,
      maxFifoCount = 1, fifoCount = 64, fifoHead = 1, fifoTail = 1,
      overrun = 4, maxOverrun = 0, totalOverrun = 4,
      fifoData = replicate 64 \<lparr>adc = [100, 101, 102, 103]\<rparr>, logTime = 139000,
      binFile = [\<lparr>adc = [100, 101, 102, 103]\<rparr>], errorLed = False, availCalls = 1\<rparr>"

definition inp_busy :: iter_in where
  "inp_busy = \<lparr>micros_281 = 141000, micros_288 = [], micros_292 = 141010,
     analogRead = (\<lambda>i. 100 + int i), micros_294 = 141090, isBusy = True,
     micros_328 = 0, write_ret = 0, micros_332 = 0, available = 0\<rparr>"

definition s_sat_328 :: log_state where
  "s_sat_328 = s_full_328\<lparr>overrun := 0xFFF, totalOverrun := 0xFFF\<rparr>"

text \<open>An iteration that starts one microsecond after its due time.\<close>

definition inp_missed :: iter_in where
  "inp_missed = inp_late\<lparr>micros_281 := 5001\<rparr>"

text \<open>The first iteration again, with a character waiting on the serial line.\<close>

definition inp_stop :: iter_in where
  "inp_stop = inp_idle\<lparr>available := 1\<rparr>"

text \<open>
  A board whose records are padded to 256 bytes around two channels: two FIFO entries. Its
  iterations fire on time and take the same readings; the card is busy or not. After two
  iterations with the card busy the buffer is full, the third counts an overrun and writes
  both records, and the fourth stores a marker.
\<close>

definition cfg_pad :: config where
  "cfg_pad = \<lparr>ADC_COUNT = 2, SIZEOF_DATA = 256, FIFO_SIZE_SECTORS = 1, SIZE_BITS = 16\<rparr>"

definition tick :: "u32 \<Rightarrow> bool \<Rightarrow> iter_in" where
  "tick t busy = \<lparr>micros_281 = t, micros_288 = [], micros_292 = t + 10,
     analogRead = (\<lambda>i. 100 + int i), micros_294 = t + 90, isBusy = busy,
     micros_328 = t + 100, write_ret = 512, micros_332 = t + 300, available = 0\<rparr>"

definition s0_pad :: log_state where
  "s0_pad = init_state 1000 0 [\<lparr>adc = [0, 0]\<rparr>, \<lparr>adc = [0, 0]\<rparr>]"

definition s1_pad :: log_state where
  "s1_pad = \<lparr>delta = 0, maxDelta = 0, maxLogMicros = 80, maxWriteMicros = 0,
       maxFifoCount = 0, fifoCount = 1, fifoHead = 1, fifoTail = 0,
       overrun = 0, maxOverrun = 0, totalOverrun = 0,
       fifoData = [\<lparr>adc = [100, 101]\<rparr>, \<lparr>adc = [0, 0]\<rparr>], logTime = 3000,
       binFile = [], errorLed = False, availCalls = 0\<rparr>"

definition s2_pad :: log_state where
  "s2_pad = \<lparr>delta = 0, maxDelta = 0, maxLogMicros = 80, maxWriteMicros = 0,
       maxFifoCount = 0, fifoCount = 2, fifoHead = 0, fifoTail = 0,
       overrun = 0, maxOverrun = 0, totalOverrun = 0,
       fifoData = [\<lparr>adc = [100, 101]\<rparr>, \<lparr>adc = [100, 101]\<rparr>], logTime = 5000,
       binFile = [], errorLed = False, availCalls = 0\<rparr>"

definition s2w_pad :: log_state where
  "s2w_pad = s2_pad\<lparr>logTime := 7000, overrun := 1, totalOverrun := 1\<rparr>"

definition s3_pad :: log_state where
  "s3_pad = \<lparr>delta = 0, maxDelta = 0, maxLogMicros = 80, maxWriteMicros = 200,
       maxFifoCount = 2, fifoCount = 0, fifoHead = 0, fifoTail = 0,
       overrun = 1, maxOverrun = 0, totalOverrun = 1,
       fifoData = [\<lparr>adc = [100, 101]\<rparr>, \<lparr>adc = [100, 101]\<rparr>], logTime = 7000,
       binFile = [\<lparr>adc = [100, 101]\<rparr>, \<lparr>adc = [100, 101]\<rparr>], errorLed = False,
       availCalls = 1\<rparr>"

definition s4_pad :: log_state where
  "s4_pad = \<lparr>delta = 0, maxDelta = 0, maxLogMicros = 80, maxWriteMicros = 200,
       maxFifoCount = 2, fifoCount = 1, fifoHead = 1, fifoTail = 0,
       overrun = 0, maxOverrun = 1, totalOverrun = 1,
       fifoData = [\<lparr>adc = [0x8002, 101]\<rparr>, \<lparr>adc = [100, 101]\<rparr>],
       logTime = 9000, binFile = [\<lparr>adc = [100, 101]\<rparr>, \<lparr>adc = [100, 101]\<rparr>],
       errorLed = False, availCalls = 1\<rparr>"

section \<open>Helper lemmas\<close>

subsection \<open>Arithmetic of \<^verbatim>\<open>size_t\<close> without wrap-around\<close>

lemma sz_add_id: "a + b < 2 ^ SIZE_BITS cfg \<Longrightarrow> sz_add cfg a b = a + b"
  by (simp add: sz_add_def)

lemma sz_sub_id:
  assumes "b \<le> a" "a < 2 ^ SIZE_BITS cfg"
  shows "sz_sub cfg a b = a - b"
proof -
  define N :: nat where "N = 2 ^ SIZE_BITS cfg"
  from assms have lt: "b < N" "a - b < N" by (simp_all add: N_def)
  from assms(1) have "a + N - b = N + (a - b)" by arith
  then have "(a + N - b) mod N = (N + (a - b)) mod N" by (rule arg_cong)
  also have "\<dots> = a - b" using lt(2) by (simp only: mod_add_self1 mod_less)
  finally have "(a + N - b mod N) mod N = a - b" using lt(1) by (simp only: mod_less)
  then show ?thesis by (simp only: sz_sub_def N_def)
qed

lemma length_fold_upd: "length (fold (\<lambda>i a. a[i := f i]) is xs) = length xs"
  by (induction "is" arbitrary: xs) simp_all

lemma length_adc_logRecord: "length (adc (logRecord cfg rd d n)) = length (adc d)"
  by (simp add: logRecord_def Let_def length_fold_upd)

lemma ring_inv_init: "wf_config cfg \<Longrightarrow> wf_fifo cfg ds \<Longrightarrow> ring_inv cfg (init_state t d ds)"
  by (simp add: ring_inv_def init_state_def wf_config_def)

lemma wait_phase_Next:
  "wait_phase inp s = Some (Next s') \<Longrightarrow> \<exists>d. s' = s\<lparr>logTime := logTime s + LOG_INTERVAL_USEC, delta := d\<rparr>"
  by (auto simp: wait_phase_def Let_def split: if_splits option.splits)

lemma wait_phase_inv: "ring_inv cfg s \<Longrightarrow> wait_phase inp s = Some (Next s') \<Longrightarrow> ring_inv cfg s'"
  by (drule wait_phase_Next) (auto simp: ring_inv_def)

lemma save_jitter_inv: "ring_inv cfg (save_jitter s) = ring_inv cfg s"
  by (simp add: save_jitter_def ring_inv_def)

lemma wf_fifo_update:
  "wf_fifo cfg ds \<Longrightarrow> length (adc r) = ADC_COUNT cfg \<Longrightarrow> wf_fifo cfg (ds[i := r])"
  by (auto simp: wf_fifo_def list_all_iff dest: set_update_subset_insert [THEN subsetD])

lemma wf_fifo_nth: "wf_fifo cfg ds \<Longrightarrow> i < FIFO_DIM cfg \<Longrightarrow> length (adc (ds ! i)) = ADC_COUNT cfg"
  by (simp add: wf_fifo_def list_all_length)

lemma head_step:
  assumes "0 < n" "t < n" "c < n"
  shows "(if (t + c) mod n < n - 1 then (t + c) mod n + 1 else 0) = (t + Suc c) mod n"
proof -
  have "(t + Suc c) mod n = Suc ((t + c) mod n) mod n"
    by (simp add: mod_Suc_eq)
  also have "\<dots> = (if (t + c) mod n < n - 1 then (t + c) mod n + 1 else 0)"
  proof -
    from assms have "(t + c) mod n < n" by simp
    then show ?thesis by (auto simp: mod_Suc)
  qed
  finally show ?thesis by simp
qed

lemma push_phase_inv:
  assumes wf: "wf_config cfg" and inv: "ring_inv cfg s" and p: "push_phase cfg inp s = Next s'"
  shows "ring_inv cfg s' \<and> 0 < fifoCount s'"
proof (cases "fifoCount s < FIFO_DIM cfg")
  case True
  let ?n = "FIFO_DIM cfg"
  from wf have n: "0 < ?n" "?n < 2 ^ SIZE_BITS cfg" by (simp_all add: wf_config_def)
  from inv have h: "fifoHead s < ?n" "fifoTail s < ?n" "fifoHead s = (fifoTail s + fifoCount s) mod ?n"
    "wf_fifo cfg (fifoData s)"
    by (simp_all add: ring_inv_def)
  have a1: "sz_sub cfg ?n (Suc 0) = ?n - 1" using n by (simp add: sz_sub_id)
  have a2: "sz_add cfg (fifoHead s) (Suc 0) = fifoHead s + 1" using n h(1) by (simp add: sz_add_id)
  have a3: "sz_add cfg (fifoCount s) (Suc 0) = fifoCount s + 1" using n True by (simp add: sz_add_id)
  have hd: "(if fifoHead s < ?n - 1 then fifoHead s + 1 else 0) = (fifoTail s + Suc (fifoCount s)) mod ?n"
    unfolding h(3) by (rule head_step [OF n(1) h(2) True])
  have wfd: "wf_fifo cfg ((fifoData s)[fifoHead s := logRecord cfg (analogRead inp) (fifoData s ! fifoHead s) (overrun s)])"
    using h by (simp add: wf_fifo_update length_adc_logRecord wf_fifo_nth)
  from p True h(1) have s': "fifoData s' = (fifoData s)[fifoHead s := logRecord cfg (analogRead inp) (fifoData s ! fifoHead s) (overrun s)]"
    "fifoCount s' = fifoCount s + 1" "fifoTail s' = fifoTail s" "overrun s' = 0"
    "fifoHead s' = (if fifoHead s < ?n - 1 then fifoHead s + 1 else 0)"
    by (auto simp: push_phase_def Let_def a1 a2 a3 split: if_splits)
  show ?thesis
    unfolding ring_inv_def s' using wfd True n h hd by simp
next
  case False
  with p have s': "fifoData s' = fifoData s" "fifoCount s' = fifoCount s" "fifoTail s' = fifoTail s"
    "fifoHead s' = fifoHead s" "overrun s' = overrun s + 1" "overrun s + 1 \<le> 0xFFF"
    by (auto simp: push_phase_def Let_def split: if_splits)
  from wf have n: "0 < FIFO_DIM cfg" by (simp add: wf_config_def)
  show ?thesis unfolding ring_inv_def s' using inv False n s'(6) by (simp add: ring_inv_def)
qed


lemma write_count_bounds:
  assumes wf: "wf_config cfg" and inv: "ring_inv cfg s" and c: "0 < fifoCount s"
  shows "write_count cfg s \<le> fifoCount s"
    and "fifoTail s + write_count cfg s \<le> FIFO_DIM cfg"
    and "write_count cfg s \<le> MAX_WRITE cfg"
proof -
  let ?n = "FIFO_DIM cfg"
  from wf have n: "0 < ?n" "?n < 2 ^ SIZE_BITS cfg" by (simp_all add: wf_config_def)
  from inv have h: "fifoCount s \<le> ?n" "fifoTail s < ?n"
    "fifoHead s = (fifoTail s + fifoCount s) mod ?n"
    by (simp_all add: ring_inv_def)
  have sub: "sz_sub cfg ?n (fifoTail s) = ?n - fifoTail s"
    using n h(2) by (simp add: sz_sub_id)
  define nw where "nw = (if fifoTail s < fifoHead s then fifoCount s else ?n - fifoTail s)"
  have wc: "write_count cfg s = (if MAX_WRITE cfg < nw then MAX_WRITE cfg else nw)"
    by (simp add: write_count_def Let_def sub nw_def)
  have "nw \<le> fifoCount s \<and> fifoTail s + nw \<le> ?n"
  proof (cases "fifoTail s + fifoCount s < ?n")
    case True
    then have "fifoHead s = fifoTail s + fifoCount s" using h(3) by simp
    with c True show ?thesis by (simp add: nw_def)
  next
    case False
    then have "(fifoTail s + fifoCount s) mod ?n = fifoTail s + fifoCount s - ?n"
      using h(1,2) by (simp add: mod_if)
    with h have "fifoHead s \<le> fifoTail s" by simp
    with False h(2) show ?thesis by (simp add: nw_def)
  qed
  then show "write_count cfg s \<le> fifoCount s"
    and "fifoTail s + write_count cfg s \<le> FIFO_DIM cfg"
    and "write_count cfg s \<le> MAX_WRITE cfg"
    by (simp_all add: wc)
qed

lemma write_phase_busy: "isBusy inp \<Longrightarrow> write_phase cfg inp s = Next s"
  by (simp add: write_phase_def)

lemma write_phase_idle:
  "\<not> isBusy inp \<Longrightarrow> write_phase cfg inp s =
     (if FIFO_DIM cfg < fifoTail s + write_count cfg s then Out_of_bounds
      else if sz_mul cfg (write_count cfg s) (SIZEOF_DATA cfg) \<noteq> write_ret inp
        then Halt Write_binFile_failed s
      else if available inp \<noteq> 0 then Break (written cfg inp s) else Next (written cfg inp s))"
  by (simp add: write_phase_def written_def Let_def)

lemma written_inv:
  assumes wf: "wf_config cfg" and inv: "ring_inv cfg s" and c: "0 < fifoCount s"
  shows "ring_inv cfg (written cfg inp s)"
proof -
  let ?n = "FIFO_DIM cfg" and ?nw = "write_count cfg s"
  from wf have n: "0 < ?n" "?n < 2 ^ SIZE_BITS cfg" by (simp_all add: wf_config_def)
  note b = write_count_bounds [OF wf inv c]
  from inv have h: "fifoCount s \<le> ?n" "fifoTail s < ?n"
    "fifoHead s = (fifoTail s + fifoCount s) mod ?n"
    by (simp_all add: ring_inv_def)
  have add: "sz_add cfg (fifoTail s) ?nw = fifoTail s + ?nw"
    using b(2) n(2) by (simp add: sz_add_id)
  have sub: "sz_sub cfg (fifoCount s) ?nw = fifoCount s - ?nw"
    using b(1) h(1) n(2) by (simp add: sz_sub_id)
  have tl: "(if fifoTail s + ?nw < ?n then fifoTail s + ?nw else 0) = (fifoTail s + ?nw) mod ?n"
    using b(2) by (cases "fifoTail s + ?nw < ?n") simp_all
  have "((fifoTail s + ?nw) mod ?n + (fifoCount s - ?nw)) mod ?n
        = (fifoTail s + ?nw + (fifoCount s - ?nw)) mod ?n"
    by (simp add: mod_add_left_eq)
  also have "\<dots> = (fifoTail s + fifoCount s) mod ?n" using b(1) by simp
  finally have hd: "((fifoTail s + ?nw) mod ?n + (fifoCount s - ?nw)) mod ?n = fifoHead s"
    using h(3) by simp
  have f: "fifoData (written cfg inp s) = fifoData s"
    "fifoHead (written cfg inp s) = fifoHead s"
    "overrun (written cfg inp s) = overrun s"
    "fifoTail (written cfg inp s) = (fifoTail s + ?nw) mod ?n"
    "fifoCount (written cfg inp s) = fifoCount s - ?nw"
    unfolding tl [symmetric] by (simp_all add: written_def Let_def add sub)
  from inv have "wf_fifo cfg (fifoData s)" "fifoHead s < ?n" "overrun s \<le> 0xFFF"
    by (simp_all add: ring_inv_def)
  moreover have "fifoCount s - ?nw \<le> ?n" using h(1) by simp
  moreover have "(fifoTail s + ?nw) mod ?n < ?n" using n(1) by simp
  ultimately show ?thesis
    unfolding ring_inv_def f using hd by simp
qed

lemma write_phase_inv:
  assumes wf: "wf_config cfg" and inv: "ring_inv cfg s" and c: "0 < fifoCount s"
    and w: "write_phase cfg inp s = Next s' \<or> write_phase cfg inp s = Break s'"
  shows "ring_inv cfg s'"
proof (cases "isBusy inp")
  case True
  with w inv show ?thesis by (simp add: write_phase_busy)
next
  case False
  with w have "s' = written cfg inp s"
    by (auto simp: write_phase_idle split: if_splits)
  then show ?thesis using written_inv [OF wf inv c] by simp
qed

subsection \<open>The tag bit and the count of a marker\<close>

lemma tag_or_and_mask:
  assumes "(n::u16) < 0x8000"
  shows "(0x8000 OR n) AND 0x7FFF = n"
proof -
  from assms have "n < 2 ^ 15" by simp
  then have a: "n AND mask 15 = n" by (rule less_mask_eq)
  have b: "(0x8000 :: u16) AND mask 15 = 0" by (simp add: mask_eq_exp_minus_1)
  have "(0x8000 OR n) AND mask 15 = (0x8000 AND mask 15) OR (n AND mask 15)"
    by (simp add: bit.conj_disj_distrib2)
  with a b have "(0x8000 OR n) AND mask 15 = n" by simp
  then show ?thesis by (simp add: mask_eq_exp_minus_1)
qed

lemma tag_or_and_tag: "((0x8000::u16) OR n) AND 0x8000 = 0x8000"
  by (rule word_ao_absorbs)

lemma logRecord_marker:
  "ov \<noteq> 0 \<Longrightarrow> adc d \<noteq> [] \<Longrightarrow>
     adc (logRecord cfg rd d ov) = (0x8000 OR (ov + 1)) # tl (adc d)"
  by (cases "adc d") (simp_all add: logRecord_def)

lemma succ_less_tag: "(n::u16) < 0x7FFF \<Longrightarrow> n + 1 < 0x8000"
  by (simp add: word_less_nat_alt unat_word_ariths)

subsection \<open>Reachable states satisfy the invariant\<close>

lemma sample_phase_Next:
  assumes "sample_phase cfg inp s = Some (Next s')"
  obtains s1 s2 where "wait_phase inp s = Some (Next s1)" "push_phase cfg inp s1 = Next s2"
    "s' = save_jitter s2"
  using assms by (auto simp: sample_phase_def split: option.splits outcome.splits)

lemma reach_inv:
  assumes wf: "wf_config cfg" and r: "reach cfg p s"
  shows "ring_inv cfg s \<and> (p = At_write \<longrightarrow> 0 < fifoCount s)"
  using r
proof (induction rule: reach.induct)
  case (reach_init ds t d)
  then show ?case using wf by (simp add: ring_inv_init)
next
  case (reach_sample s inp s')
  from reach_sample.hyps(2) obtain s1 s2 where
    w: "wait_phase inp s = Some (Next s1)" and p: "push_phase cfg inp s1 = Next s2"
    and j: "s' = save_jitter s2"
    by (rule sample_phase_Next)
  from reach_sample.IH w have "ring_inv cfg s1" by (auto intro: wait_phase_inv)
  from push_phase_inv [OF wf this p] j show ?case
    by (simp add: save_jitter_inv) (simp add: save_jitter_def)
next
  case (reach_next s inp s')
  then show ?case using write_phase_inv [OF wf, of s inp s'] by simp
next
  case (reach_break s inp s')
  then show ?case using write_phase_inv [OF wf, of s inp s'] by simp
qed

lemma iteration_Next:
  assumes "iteration cfg s inp = Some (Next s')"
  obtains s2 where "sample_phase cfg inp s = Some (Next s2)" "write_phase cfg inp s2 = Next s'"
  using assms by (auto simp: iteration_def split: option.splits outcome.splits)

lemma reach_iteration:
  assumes "reach cfg At_head s" and "iteration cfg s inp = Some (Next s')"
  shows "reach cfg At_head s'"
proof -
  from assms(2) obtain s2 where "sample_phase cfg inp s = Some (Next s2)"
    "write_phase cfg inp s2 = Next s'" by (rule iteration_Next)
  with assms(1) show ?thesis by (blast intro: reach_sample reach_next)
qed

lemma reach_logLoop:
  "reach cfg At_head s \<Longrightarrow> logLoop cfg s inps = Some (Next s') \<Longrightarrow> reach cfg At_head s'"
proof (induction inps arbitrary: s)
  case Nil
  then show ?case by simp
next
  case (Cons inp inps)
  from Cons.prems(2) obtain s1 where i: "iteration cfg s inp = Some (Next s1)"
    and l: "logLoop cfg s1 inps = Some (Next s')"
    by (auto split: option.splits outcome.splits)
  from Cons.prems(1) i have "reach cfg At_head s1" by (rule reach_iteration)
  then show ?case using l by (rule Cons.IH)
qed

subsection \<open>What the push and the write do to the buffered records\<close>

lemma push_phase_fields:
  assumes wf: "wf_config cfg" and inv: "ring_inv cfg s" and p: "push_phase cfg inp s = Next s'"
    and c: "fifoCount s < FIFO_DIM cfg"
  shows "fifoData s' = (fifoData s)[fifoHead s :=
           logRecord cfg (analogRead inp) (fifoData s ! fifoHead s) (overrun s)]"
    and "fifoCount s' = Suc (fifoCount s)"
    and "fifoTail s' = fifoTail s"
    and "fifoHead s' = (fifoTail s + Suc (fifoCount s)) mod FIFO_DIM cfg"
    and "binFile s' = binFile s"
    and "overrun s' = 0"
    and "availCalls s' = availCalls s"
proof -
  let ?n = "FIFO_DIM cfg"
  from wf have n: "0 < ?n" "?n < 2 ^ SIZE_BITS cfg" by (simp_all add: wf_config_def)
  from inv have h: "fifoHead s < ?n" "fifoTail s < ?n"
    "fifoHead s = (fifoTail s + fifoCount s) mod ?n"
    by (simp_all add: ring_inv_def)
  have a1: "sz_sub cfg ?n (Suc 0) = ?n - 1" using n by (simp add: sz_sub_id)
  have a2: "sz_add cfg (fifoHead s) (Suc 0) = fifoHead s + 1" using n h(1) by (simp add: sz_add_id)
  have a3: "sz_add cfg (fifoCount s) (Suc 0) = fifoCount s + 1" using n c by (simp add: sz_add_id)
  have hd: "(if fifoHead s < ?n - 1 then fifoHead s + 1 else 0) = (fifoTail s + Suc (fifoCount s)) mod ?n"
    unfolding h(3) by (rule head_step [OF n(1) h(2) c])
  from p c h(1) have s': "fifoData s' = (fifoData s)[fifoHead s :=
           logRecord cfg (analogRead inp) (fifoData s ! fifoHead s) (overrun s)]"
    "fifoCount s' = Suc (fifoCount s)" "fifoTail s' = fifoTail s" "overrun s' = 0"
    "binFile s' = binFile s" "availCalls s' = availCalls s"
    "fifoHead s' = (if fifoHead s < ?n - 1 then fifoHead s + 1 else 0)"
    by (auto simp: push_phase_def Let_def a1 a2 a3 split: if_splits)
  show "fifoData s' = (fifoData s)[fifoHead s :=
           logRecord cfg (analogRead inp) (fifoData s ! fifoHead s) (overrun s)]"
    and "fifoCount s' = Suc (fifoCount s)"
    and "fifoTail s' = fifoTail s"
    and "binFile s' = binFile s"
    and "overrun s' = 0"
    and "availCalls s' = availCalls s"
    by (rule s')+
  show "fifoHead s' = (fifoTail s + Suc (fifoCount s)) mod FIFO_DIM cfg"
    using s'(7) hd by simp
qed

lemma ring_slots_distinct:
  fixes n :: nat
  assumes "i < c" "c < n" "(t + i) mod n = (t + c) mod n"
  shows False
proof -
  from assms(1) have "t + i \<le> t + c" by simp
  then have "n dvd (t + c) - (t + i)"
    using assms(3) by (simp only: mod_eq_dvd_iff_nat [symmetric])
  then have "n dvd c - i" by simp
  moreover have "0 < c - i" "c - i < n" using assms by simp_all
  ultimately show False by (simp add: nat_dvd_not_less)
qed

lemma buffered_push:
  assumes wf: "wf_config cfg" and inv: "ring_inv cfg s" and p: "push_phase cfg inp s = Next s'"
    and c: "fifoCount s < FIFO_DIM cfg"
  shows "buffered cfg s' =
           buffered cfg s @ [logRecord cfg (analogRead inp) (fifoData s ! fifoHead s) (overrun s)]"
proof -
  let ?n = "FIFO_DIM cfg" and ?r = "logRecord cfg (analogRead inp) (fifoData s ! fifoHead s) (overrun s)"
  note f = push_phase_fields [OF wf inv p c]
  from inv have h: "fifoHead s < ?n" "fifoHead s = (fifoTail s + fifoCount s) mod ?n"
    "length (fifoData s) = ?n"
    by (simp_all add: ring_inv_def wf_fifo_def)
  have old: "(fifoData s)[fifoHead s := ?r] ! ((fifoTail s + i) mod ?n)
             = fifoData s ! ((fifoTail s + i) mod ?n)" if "i < fifoCount s" for i
  proof -
    have "(fifoTail s + i) mod ?n \<noteq> fifoHead s"
      unfolding h(2) using ring_slots_distinct [OF that c] by blast
    then show ?thesis by simp
  qed
  have new: "(fifoData s)[fifoHead s := ?r] ! ((fifoTail s + fifoCount s) mod ?n) = ?r"
    using h by simp
  show ?thesis
    by (simp add: buffered_def f(1,2,3) old new)
qed

lemma buffered_full:
  "push_phase cfg inp s = Next s' \<Longrightarrow> \<not> fifoCount s < FIFO_DIM cfg \<Longrightarrow>
     buffered cfg s' = buffered cfg s"
  by (auto simp: push_phase_def buffered_def Let_def split: if_splits)

lemma written_fields:
  assumes wf: "wf_config cfg" and inv: "ring_inv cfg s" and c: "0 < fifoCount s"
  shows "fifoData (written cfg inp s) = fifoData s"
    and "fifoHead (written cfg inp s) = fifoHead s"
    and "fifoTail (written cfg inp s) = (fifoTail s + write_count cfg s) mod FIFO_DIM cfg"
    and "fifoCount (written cfg inp s) = fifoCount s - write_count cfg s"
    and "binFile (written cfg inp s) =
           binFile s @ take (write_count cfg s) (drop (fifoTail s) (fifoData s))"
    and "availCalls (written cfg inp s) = availCalls s + 1"
    and "overrun (written cfg inp s) = overrun s"
    and "totalOverrun (written cfg inp s) = totalOverrun s"
    and "logTime (written cfg inp s) = logTime s"
proof -
  let ?n = "FIFO_DIM cfg" and ?nw = "write_count cfg s"
  from wf have n: "0 < ?n" "?n < 2 ^ SIZE_BITS cfg" by (simp_all add: wf_config_def)
  note b = write_count_bounds [OF wf inv c]
  from inv have h: "fifoCount s \<le> ?n" by (simp add: ring_inv_def)
  have add: "sz_add cfg (fifoTail s) ?nw = fifoTail s + ?nw"
    using b(2) n(2) by (simp add: sz_add_id)
  have sub: "sz_sub cfg (fifoCount s) ?nw = fifoCount s - ?nw"
    using b(1) h n(2) by (simp add: sz_sub_id)
  have tl: "(if fifoTail s + ?nw < ?n then fifoTail s + ?nw else 0) = (fifoTail s + ?nw) mod ?n"
    using b(2) by (cases "fifoTail s + ?nw < ?n") simp_all
  show "fifoData (written cfg inp s) = fifoData s"
    and "fifoHead (written cfg inp s) = fifoHead s"
    and "fifoTail (written cfg inp s) = (fifoTail s + write_count cfg s) mod FIFO_DIM cfg"
    and "fifoCount (written cfg inp s) = fifoCount s - write_count cfg s"
    and "binFile (written cfg inp s) =
           binFile s @ take (write_count cfg s) (drop (fifoTail s) (fifoData s))"
    and "availCalls (written cfg inp s) = availCalls s + 1"
    and "overrun (written cfg inp s) = overrun s"
    and "totalOverrun (written cfg inp s) = totalOverrun s"
    and "logTime (written cfg inp s) = logTime s"
    unfolding tl [symmetric] by (simp_all add: written_def Let_def add sub)
qed

lemma written_takes_front:
  assumes wf: "wf_config cfg" and inv: "ring_inv cfg s" and c: "0 < fifoCount s"
  shows "take (write_count cfg s) (drop (fifoTail s) (fifoData s))
           = take (write_count cfg s) (buffered cfg s)"
proof (rule nth_equalityI)
  let ?n = "FIFO_DIM cfg" and ?nw = "write_count cfg s"
  note b = write_count_bounds [OF wf inv c]
  from inv have l: "length (fifoData s) = ?n" by (simp add: ring_inv_def wf_fifo_def)
  show "length (take ?nw (drop (fifoTail s) (fifoData s))) = length (take ?nw (buffered cfg s))"
    using b l by (simp add: buffered_def)
  fix i assume "i < length (take ?nw (drop (fifoTail s) (fifoData s)))"
  then have i: "i < ?nw" by simp
  with b have "fifoTail s + i < ?n" "i < fifoCount s" by simp_all
  then show "take ?nw (drop (fifoTail s) (fifoData s)) ! i = take ?nw (buffered cfg s) ! i"
    using i l by (simp add: buffered_def)
qed

lemma written_leaves_rest:
  assumes wf: "wf_config cfg" and inv: "ring_inv cfg s" and c: "0 < fifoCount s"
  shows "buffered cfg (written cfg inp s) = drop (write_count cfg s) (buffered cfg s)"
proof (rule nth_equalityI)
  let ?n = "FIFO_DIM cfg" and ?nw = "write_count cfg s"
  note b = write_count_bounds [OF wf inv c]
  note f = written_fields [OF wf inv c, of inp]
  show "length (buffered cfg (written cfg inp s)) = length (drop ?nw (buffered cfg s))"
    by (simp add: buffered_def f)
  fix i assume "i < length (buffered cfg (written cfg inp s))"
  then have i: "i < fifoCount s - ?nw" by (simp add: buffered_def f)
  have "((fifoTail s + ?nw) mod ?n + i) mod ?n = (fifoTail s + (?nw + i)) mod ?n"
    by (simp add: mod_add_left_eq add.assoc)
  then show "buffered cfg (written cfg inp s) ! i = drop ?nw (buffered cfg s) ! i"
    using i b(1) by (simp add: buffered_def f)
qed

subsection \<open>The example configuration\<close>

lemma cfg_328_simps:
  "ADC_COUNT cfg_328 = 4" "SIZEOF_DATA cfg_328 = 8" "SIZE_BITS cfg_328 = 16"
  "FIFO_DIM cfg_328 = 64" "MAX_WRITE cfg_328 = 64"
  by (simp_all add: cfg_328_def FIFO_DIM_def MAX_WRITE_def)

lemma wf_cfg_328: "wf_config cfg_328"
  by (simp add: wf_config_def cfg_328_simps)

lemma wf_fifo_328: "wf_fifo cfg_328 fifo_328"
  by (simp add: wf_fifo_def cfg_328_simps fifo_328_def list_all_iff)

lemma upt_0_4: "[0..<4] = [0, 1, 2, 3]"
  by code_simp

lemma logRecord_328:
  "logRecord cfg_328 (\<lambda>i. 100 + int i) \<lparr>adc = [0, 0, 0, 0]\<rparr> 0 = \<lparr>adc = [100, 101, 102, 103]\<rparr>"
  by (simp add: logRecord_def cfg_328_simps upt_0_4)

lemma sample_328: "sample_phase cfg_328 inp_idle (init_state 1000 0 fifo_328) = Some (Next s1_328)"
  by (simp add: sample_phase_def wait_phase_def push_phase_def save_jitter_def Let_def
      cfg_328_simps inp_idle_def init_state_def LOG_INTERVAL_USEC_def
      sz_add_def sz_sub_def word_sless_alt s1_328_def logRecord_328 fifo_328_def)

lemma reach_s1_328: "reach cfg_328 At_write s1_328"
  by (rule reach_sample [OF reach_init [OF wf_fifo_328] sample_328])

lemma ring_head_tail:
  fixes n :: nat
  assumes "0 < n" "c \<le> n" "t < n"
  shows "(t + c) mod n = t \<longleftrightarrow> c = 0 \<or> c = n"
proof
  assume e: "(t + c) mod n = t"
  show "c = 0 \<or> c = n"
  proof (rule ccontr)
    assume "\<not> (c = 0 \<or> c = n)"
    with assms have c: "0 < c" "c < n" by simp_all
    from e assms(3) have "(t + 0) mod n = (t + c) mod n" by simp
    with c show False by (rule ring_slots_distinct)
  qed
next
  assume "c = 0 \<or> c = n"
  with assms show "(t + c) mod n = t" by auto
qed

lemma write_bytes_bounded:
  assumes "write_count cfg s \<le> MAX_WRITE cfg"
  shows "write_count cfg s * SIZEOF_DATA cfg \<le> 512"
proof -
  have "write_count cfg s * SIZEOF_DATA cfg \<le> (512 div SIZEOF_DATA cfg) * SIZEOF_DATA cfg"
    using assms by (simp add: MAX_WRITE_def)
  also have "\<dots> \<le> 512" by simp
  finally show ?thesis .
qed

lemma sz_mul_id: "a * b < 2 ^ SIZE_BITS cfg \<Longrightarrow> sz_mul cfg a b = a * b"
  by (simp add: sz_mul_def)

lemma size_t_holds_512: "wf_config cfg \<Longrightarrow> (512::nat) < 2 ^ SIZE_BITS cfg"
proof -
  assume "wf_config cfg"
  then have "16 \<le> SIZE_BITS cfg" by (simp add: wf_config_def)
  then have "(2::nat) ^ 16 \<le> 2 ^ SIZE_BITS cfg" by (rule power_increasing) simp
  then show ?thesis by simp
qed

subsection \<open>Two iterations of the example\<close>

lemma take_1_update: "l \<noteq> [] \<Longrightarrow> take (Suc 0) (l[0 := r]) = [r]"
  by (cases l) simp_all

lemma fifo_328_nth: "i < 64 \<Longrightarrow> fifo_328 ! i = \<lparr>adc = [0, 0, 0, 0]\<rparr>"
  by (simp add: fifo_328_def)

lemma fifo_328_length: "length fifo_328 = 64" "fifo_328 \<noteq> []"
  by (auto simp: fifo_328_def)

lemma write_328: "write_phase cfg_328 inp_idle s1_328 = Next s2_328"
  by (simp add: write_phase_def write_count_def Let_def cfg_328_simps inp_idle_def
      s1_328_def s2_328_def sz_add_def sz_sub_def sz_mul_def take_1_update fifo_328_length)

lemma iteration_328_1: "iteration cfg_328 (init_state 1000 0 fifo_328) inp_idle = Some (Next s2_328)"
  by (simp add: iteration_def sample_328 write_328)

lemma logRecord_328_late:
  "logRecord cfg_328 (\<lambda>i. 200 + int i) \<lparr>adc = [0, 0, 0, 0]\<rparr> 0 = \<lparr>adc = [200, 201, 202, 203]\<rparr>"
  by (simp add: logRecord_def cfg_328_simps upt_0_4)

lemma iteration_328_2: "iteration cfg_328 s2_328 inp_late = Some (Next s3_328)"
  by (simp add: iteration_def sample_phase_def wait_phase_def push_phase_def save_jitter_def
      write_phase_def Let_def cfg_328_simps inp_late_def s2_328_def s3_328_def
      LOG_INTERVAL_USEC_def sz_add_def sz_sub_def word_sless_alt
      fifo_328_nth fifo_328_length logRecord_328_late)

lemma logLoop_328: "logLoop cfg_328 (init_state 1000 0 fifo_328) [inp_idle, inp_late] = Some (Next s3_328)"
  by (simp add: iteration_328_1 iteration_328_2)


subsection \<open>The due time\<close>

lemma push_phase_logTime:
  "push_phase cfg inp s = Next s' \<Longrightarrow> logTime s' = logTime s"
  by (auto simp: push_phase_def Let_def split: if_splits)

lemma write_phase_logTime:
  "write_phase cfg inp s = Next s' \<or> write_phase cfg inp s = Break s' \<Longrightarrow>
     logTime s' = logTime s"
  by (auto simp: write_phase_def Let_def split: if_splits)

lemma sample_phase_logTime:
  assumes "sample_phase cfg inp s = Some (Next s')"
  shows "logTime s' = logTime s + LOG_INTERVAL_USEC"
proof -
  from assms obtain s1 s2 where w: "wait_phase inp s = Some (Next s1)"
    and p: "push_phase cfg inp s1 = Next s2" and j: "s' = save_jitter s2"
    by (rule sample_phase_Next)
  from wait_phase_Next [OF w] have "logTime s1 = logTime s + LOG_INTERVAL_USEC" by auto
  with push_phase_logTime [OF p] j show ?thesis by (simp add: save_jitter_def)
qed

lemma wait_phase_not_Break: "wait_phase inp s \<noteq> Some (Break s')"
  by (simp add: wait_phase_def Let_def split: option.splits)

lemma push_phase_not_Break: "push_phase cfg inp s \<noteq> Break s'"
  by (simp add: push_phase_def Let_def)

lemma sample_phase_not_Break: "sample_phase cfg inp s \<noteq> Some (Break s')"
  using wait_phase_not_Break [of inp s s'] push_phase_not_Break [of cfg inp _ s']
  by (auto simp: sample_phase_def split: option.splits outcome.splits)

lemma iteration_logTime:
  assumes "iteration cfg s inp = Some (Next s') \<or> iteration cfg s inp = Some (Break s')"
  shows "logTime s' = logTime s + LOG_INTERVAL_USEC"
proof -
  from assms obtain s2 where s: "sample_phase cfg inp s = Some (Next s2)"
    and w: "write_phase cfg inp s2 = Next s' \<or> write_phase cfg inp s2 = Break s'"
    using sample_phase_not_Break [of cfg inp s s']
    by (auto simp: iteration_def split: option.splits outcome.splits)
  from sample_phase_logTime [OF s] write_phase_logTime [OF w] show ?thesis by simp
qed

subsection \<open>The push on a full buffer\<close>

lemma wait_full_328:
  "wait_phase inp_busy s_full_328 = Some (Next (s_full_328\<lparr>logTime := 141000\<rparr>))"
  "wait_phase inp_busy s_sat_328 = Some (Next (s_sat_328\<lparr>logTime := 141000\<rparr>))"
  by (simp_all add: wait_phase_def Let_def inp_busy_def s_full_328_def s_sat_328_def
      LOG_INTERVAL_USEC_def)

subsection \<open>The busy-wait\<close>

lemma wait_loop_eq:
  "wait_loop lt d ts =
     (if \<not> d <s 0 then Some d
      else case dropWhile (\<lambda>t. t - lt <s 0) ts of [] \<Rightarrow> None | t # _ \<Rightarrow> Some (t - lt))"
  by (induction ts arbitrary: d) simp_all

lemma wait_loop_fired: "wait_loop lt d ts = Some d' \<Longrightarrow> \<not> d' <s 0"
  by (induction ts arbitrary: d) (simp_all split: if_splits)

lemma signed_zero: "\<not> 0 <s (d::u32) \<Longrightarrow> \<not> d <s 0 \<Longrightarrow> d = 0"
  by (simp add: signed.not_less_iff_gr_or_eq)

lemma case_list_option:
  "(case (case xs of [] \<Rightarrow> None | t # ts \<Rightarrow> Some (f t)) of None \<Rightarrow> None | Some d \<Rightarrow> Some (g d))
     = (case xs of [] \<Rightarrow> None | t # ts \<Rightarrow> Some (g (f t)))"
  by (cases xs) simp_all

lemma push_phase_full:
  assumes "\<not> fifoCount s < FIFO_DIM cfg"
  shows "push_phase cfg inp s =
           (if 0xFFF < overrun s + 1 then Halt Too_many_overruns else Next)
             (s\<lparr>totalOverrun := totalOverrun s + 1, overrun := overrun s + 1\<rparr>)"
  using assms by (simp add: push_phase_def Let_def ERROR_LED_PIN_def)

subsection \<open>The poll of the serial line\<close>

lemma sample_phase_availCalls:
  assumes "sample_phase cfg inp s = Some (Next s')"
  shows "availCalls s' = availCalls s"
proof -
  from assms obtain s1 s2 where w: "wait_phase inp s = Some (Next s1)"
    and p: "push_phase cfg inp s1 = Next s2" and j: "s' = save_jitter s2"
    by (rule sample_phase_Next)
  from wait_phase_Next [OF w] have "availCalls s1 = availCalls s" by auto
  moreover from p have "availCalls s2 = availCalls s1"
    by (auto simp: push_phase_def Let_def split: if_splits)
  ultimately show ?thesis using j by (simp add: save_jitter_def)
qed

lemma write_phase_Halt:
  "write_phase cfg inp s = Halt e s' \<Longrightarrow> s' = s"
  by (auto simp: write_phase_def Let_def split: if_splits)

lemma sample_328_stop: "sample_phase cfg_328 inp_stop (init_state 1000 0 fifo_328) = Some (Next s1_328)"
  by (simp add: sample_phase_def wait_phase_def push_phase_def save_jitter_def Let_def
      cfg_328_simps inp_idle_def inp_stop_def init_state_def LOG_INTERVAL_USEC_def
      sz_add_def sz_sub_def word_sless_alt s1_328_def logRecord_328 fifo_328_def)

lemma write_328_stop: "write_phase cfg_328 inp_stop s1_328 = Break s2_328"
  by (simp add: write_phase_def write_count_def Let_def cfg_328_simps inp_idle_def inp_stop_def
      s1_328_def s2_328_def sz_add_def sz_sub_def sz_mul_def take_1_update fifo_328_length)

lemma sample_328_late: "sample_phase cfg_328 inp_late s2_328 = Some (Next s3_328)"
  by (simp add: sample_phase_def wait_phase_def push_phase_def save_jitter_def
      Let_def cfg_328_simps inp_late_def s2_328_def s3_328_def
      LOG_INTERVAL_USEC_def sz_add_def sz_sub_def word_sless_alt
      fifo_328_nth fifo_328_length logRecord_328_late)

subsection \<open>The example with two FIFO entries\<close>

lemma cfg_pad_simps:
  "ADC_COUNT cfg_pad = 2" "SIZEOF_DATA cfg_pad = 256" "SIZE_BITS cfg_pad = 16"
  "FIFO_DIM cfg_pad = 2" "MAX_WRITE cfg_pad = 2"
  by (simp_all add: cfg_pad_def FIFO_DIM_def MAX_WRITE_def)

lemma wf_cfg_pad: "wf_config cfg_pad"
  by (simp add: wf_config_def cfg_pad_simps)

lemma reach_s0_pad: "reach cfg_pad At_head s0_pad"
  unfolding s0_pad_def by (rule reach_init) (simp add: wf_fifo_def cfg_pad_simps)

lemma upt_0_2: "[0..<2] = [0, 1]"
  by code_simp

lemma logRecord_pad:
  "logRecord cfg_pad (\<lambda>i. 100 + int i) \<lparr>adc = [a, b]\<rparr> 0 = \<lparr>adc = [100, 101]\<rparr>"
  by (simp add: logRecord_def cfg_pad_simps upt_0_2)

lemmas pad_eval = iteration_def sample_phase_def wait_phase_def push_phase_def save_jitter_def
  write_phase_def write_count_def Let_def cfg_pad_simps tick_def LOG_INTERVAL_USEC_def
  sz_add_def sz_sub_def sz_mul_def word_sless_alt logRecord_pad

lemma iteration_pad_1: "iteration cfg_pad s0_pad (tick 3000 True) = Some (Next s1_pad)"
  by (simp add: pad_eval s0_pad_def init_state_def s1_pad_def)

lemma iteration_pad_2: "iteration cfg_pad s1_pad (tick 5000 True) = Some (Next s2_pad)"
  by (simp add: pad_eval s1_pad_def s2_pad_def)

lemma sample_pad_4: "sample_phase cfg_pad (tick 9000 True) s3_pad = Some (Next s4_pad)"
  by (simp add: pad_eval s3_pad_def s4_pad_def logRecord_def)

lemma sample_pad_3: "sample_phase cfg_pad (tick 7000 False) s2_pad = Some (Next s2w_pad)"
  by (simp add: sample_phase_def wait_phase_def push_phase_def save_jitter_def Let_def
      cfg_pad_simps tick_def LOG_INTERVAL_USEC_def ERROR_LED_PIN_def s2_pad_def s2w_pad_def)

lemma write_count_pad_3: "write_count cfg_pad s2w_pad = 2"
  by (simp add: write_count_def cfg_pad_simps s2w_pad_def s2_pad_def sz_sub_def)

lemma written_pad_3: "written cfg_pad (tick 7000 False) s2w_pad = s3_pad"
  unfolding written_def Let_def write_count_pad_3
  by (simp add: cfg_pad_simps tick_def s2w_pad_def s2_pad_def s3_pad_def sz_add_def sz_sub_def)

lemma write_pad_3: "write_phase cfg_pad (tick 7000 False) s2w_pad = Next s3_pad"
proof -
  have "\<not> isBusy (tick 7000 False)" by (simp add: tick_def)
  then show ?thesis
    by (simp add: write_phase_idle write_count_pad_3 written_pad_3 cfg_pad_simps sz_mul_def)
       (simp add: tick_def s2w_pad_def s2_pad_def)
qed

lemma iteration_pad_3: "iteration cfg_pad s2_pad (tick 7000 False) = Some (Next s3_pad)"
  by (simp add: iteration_def sample_pad_3 write_pad_3)

lemma reach_s3_pad: "reach cfg_pad At_head s3_pad"
  by (intro reach_iteration [OF _ iteration_pad_3] reach_iteration [OF _ iteration_pad_2]
      reach_iteration [OF _ iteration_pad_1] reach_s0_pad)

subsection \<open>Counts below the tag bit\<close>

lemma streak_succ_bounded:
  assumes "(n::u16) \<le> 0xFFF"
  shows "n + 1 \<le> 0x1000" and "n + 1 < 0x8000"
  using assms by (simp_all add: word_le_nat_alt word_less_nat_alt unat_word_ariths)

lemma below_tag_bit:
  assumes "(n::u16) < 0x8000"
  shows "n AND 0x8000 = 0"
proof -
  from assms have "n < 2 ^ 15" by simp
  then have "n AND mask 15 = n" by (rule less_mask_eq)
  then have "n AND 0x8000 = (n AND mask 15) AND 0x8000" by simp
  also have "\<dots> = n AND (mask 15 AND 0x8000)" by (simp only: and.assoc)
  also have "mask 15 AND (0x8000::u16) = 0" by (simp add: mask_eq_exp_minus_1)
  finally show ?thesis by simp
qed

section \<open>Claims about the record codec\<close>

text \<open>
  C1 (as amended). \<^verbatim>\<open>logRecord\<close> adds one to the streak count it is given before it
  stores it (``Add one since this record has no adc data''), so decoding a marker the way
  \<^verbatim>\<open>printRecord\<close> does (the low 15 bits of \<^verbatim>\<open>adc[0]\<close>) yields the count plus one, not
  the count: for every count \<open>n\<close> from 1 to \<open>0x7FFE\<close>, \<^verbatim>\<open>printRecord\<close> takes the record for a
  marker, prints \<open>n + 1\<close> overruns and advances its record number by \<open>n + 1\<close>.
\<close>

theorem logRecord_decode_succ:
  assumes "n \<noteq> 0" and "n < 0x7FFF" and "adc d \<noteq> []"
  shows "printRecord cfg nr (Some (logRecord cfg rd d n)) =
           (nr + ucast (n + 1), [PrStr ''-1,'', PrU16 (n + 1), PrStr '',overuns'', PrLn])"
proof -
  let ?a = "adc (logRecord cfg rd d n) ! 0"
  have a: "?a = 0x8000 OR (n + 1)" using assms by (simp add: logRecord_marker)
  have "?a AND 0x8000 = 0x8000" unfolding a by (rule tag_or_and_tag)
  then have t: "?a AND 0x8000 \<noteq> 0" by simp
  have c: "?a AND 0x7FFF = n + 1"
    unfolding a using assms(2) by (intro tag_or_and_mask succ_less_tag)
  show ?thesis using t c by (simp add: Let_def)
qed

theorem logRecord_decode_succ_witness:
  "(1::u16) \<noteq> 0 \<and> (1::u16) < 0x7FFF \<and> adc \<lparr>adc = [100, 101, 102, 103]\<rparr> \<noteq> [] \<and>
   printRecord cfg_328 7 (Some (logRecord cfg_328 (\<lambda>i. 0) \<lparr>adc = [100, 101, 102, 103]\<rparr> 1)) =
     (9, [PrStr ''-1,'', PrU16 2, PrStr '',overuns'', PrLn])"
  using logRecord_decode_succ [of 1 "\<lparr>adc = [100, 101, 102, 103]\<rparr>" cfg_328 7 "\<lambda>i. 0"]
  by simp

text \<open>
  C1 as stated fails: the marker made from the count 1 decodes to 2.
\<close>

theorem logRecord_decode_counterexample:
  "adc (logRecord cfg_328 (\<lambda>i. 0) \<lparr>adc = [100, 101, 102, 103]\<rparr> 1) ! 0 AND 0x7FFF \<noteq> 1"
  by (simp add: logRecord_def)

text \<open>
  C6 (as amended). In a marker only the first channel slot is determined by the streak
  count and the tag bit: it is \<open>0x8000 OR (count + 1)\<close>. \<^verbatim>\<open>logRecord\<close> reads no sensor for a
  marker (its result does not depend on \<open>analogRead\<close>), and it leaves every other channel
  slot as it was in the buffer slot it is given.
\<close>

theorem marker_keeps_slot:
  assumes "ov \<noteq> 0" and "adc d \<noteq> []"
  shows "hd (adc (logRecord cfg rd d ov)) = 0x8000 OR (ov + 1) \<and>
         tl (adc (logRecord cfg rd d ov)) = tl (adc d) \<and>
         logRecord cfg rd' d ov = logRecord cfg rd d ov"
proof -
  have a: "adc (logRecord cfg rd d ov) = (0x8000 OR (ov + 1)) # tl (adc d)"
    using assms by (rule logRecord_marker)
  have b: "logRecord cfg rd' d ov = logRecord cfg rd d ov"
    using assms(1) by (simp add: logRecord_def)
  show ?thesis by (simp add: a b)
qed

theorem marker_keeps_slot_witness:
  "(1::u16) \<noteq> 0 \<and> adc \<lparr>adc = [100, 101, 102, 103]\<rparr> \<noteq> [] \<and>
   hd (adc (logRecord cfg_328 (\<lambda>i. 0) \<lparr>adc = [100, 101, 102, 103]\<rparr> 1)) = 0x8002 \<and>
   tl (adc (logRecord cfg_328 (\<lambda>i. 0) \<lparr>adc = [100, 101, 102, 103]\<rparr> 1)) = [101, 102, 103] \<and>
   logRecord cfg_328 (\<lambda>i. 7) \<lparr>adc = [100, 101, 102, 103]\<rparr> 1 =
     logRecord cfg_328 (\<lambda>i. 0) \<lparr>adc = [100, 101, 102, 103]\<rparr> 1"
  using marker_keeps_slot [of 1 "\<lparr>adc = [100, 101, 102, 103]\<rparr>" cfg_328 "\<lambda>i. 0" "\<lambda>i. 7"]
  by simp

text \<open>
  C6 as stated fails: two markers for the same streak count differ in their channels
  1 to 3, which still hold the readings that were in the slot before.
\<close>

theorem marker_channels_counterexample:
  "logRecord cfg_328 (\<lambda>i. 0) \<lparr>adc = [100, 101, 102, 103]\<rparr> 1 = \<lparr>adc = [0x8002, 101, 102, 103]\<rparr> \<and>
   logRecord cfg_328 (\<lambda>i. 0) \<lparr>adc = [100, 201, 202, 203]\<rparr> 1 = \<lparr>adc = [0x8002, 201, 202, 203]\<rparr>"
  by (simp add: logRecord_def)

section \<open>Claims about the ring buffer\<close>

text \<open>
  C2. In every state the loop reaches (at its head, before the write of line 322, after
  \<^verbatim>\<open>break\<close>) the bookkeeping of the ring is consistent: \<open>fifoCount\<close> is at most
  \<open>FIFO_DIM\<close>, \<open>fifoHead\<close> and \<open>fifoTail\<close> are below \<open>FIFO_DIM\<close>, and \<open>fifoHead\<close> lies
  \<open>fifoCount\<close> slots after \<open>fifoTail\<close> around the ring, so that the two indices meet exactly
  when the buffer is empty (\<open>fifoCount = 0\<close>, no record waiting) or full
  (\<open>fifoCount = FIFO_DIM\<close>, every slot waiting). Before the write at least one record is
  waiting and the number written is at most \<open>fifoCount\<close>: the \<^verbatim>\<open>size_t\<close> subtraction of line
  340 never wraps, the count never goes below zero. The reachable states are closed under
  the push phase and the write phase by definition, so every iteration preserves all this.
\<close>

theorem ring_buffer_invariant:
  assumes "wf_config cfg" and "reach cfg p s"
  shows "fifoCount s \<le> FIFO_DIM cfg \<and> fifoHead s < FIFO_DIM cfg \<and> fifoTail s < FIFO_DIM cfg \<and>
         fifoHead s = (fifoTail s + fifoCount s) mod FIFO_DIM cfg \<and>
         (fifoHead s = fifoTail s \<longleftrightarrow> fifoCount s = 0 \<or> fifoCount s = FIFO_DIM cfg) \<and>
         (fifoCount s = 0 \<longleftrightarrow> buffered cfg s = []) \<and>
         (fifoCount s = FIFO_DIM cfg \<longleftrightarrow> length (buffered cfg s) = FIFO_DIM cfg) \<and>
         (p = At_write \<longrightarrow> 0 < fifoCount s \<and> write_count cfg s \<le> fifoCount s \<and>
            sz_sub cfg (fifoCount s) (write_count cfg s) = fifoCount s - write_count cfg s)"
proof -
  let ?n = "FIFO_DIM cfg"
  from assms(1) have n: "0 < ?n" "?n < 2 ^ SIZE_BITS cfg" by (simp_all add: wf_config_def)
  from reach_inv [OF assms] have inv: "ring_inv cfg s"
    and w: "p = At_write \<longrightarrow> 0 < fifoCount s" by simp_all
  from inv have h: "fifoCount s \<le> ?n" "fifoHead s < ?n" "fifoTail s < ?n"
    "fifoHead s = (fifoTail s + fifoCount s) mod ?n"
    by (simp_all add: ring_inv_def)
  have ht: "fifoHead s = fifoTail s \<longleftrightarrow> fifoCount s = 0 \<or> fifoCount s = ?n"
    unfolding h(4) by (rule ring_head_tail [OF n(1) h(1) h(3)])
  have b: "length (buffered cfg s) = fifoCount s" by (simp add: buffered_def)
  have e: "fifoCount s = 0 \<longleftrightarrow> buffered cfg s = []"
    using b by (metis length_0_conv)
  have wr: "write_count cfg s \<le> fifoCount s \<and>
            sz_sub cfg (fifoCount s) (write_count cfg s) = fifoCount s - write_count cfg s"
    if "0 < fifoCount s"
  proof -
    from write_count_bounds(1) [OF assms(1) inv that]
    have le: "write_count cfg s \<le> fifoCount s" .
    moreover have "fifoCount s < 2 ^ SIZE_BITS cfg" using h(1) n(2) by simp
    ultimately show ?thesis by (simp add: sz_sub_id)
  qed
  show ?thesis using h ht e b w wr by simp
qed

theorem ring_buffer_invariant_witness:
  "wf_config cfg_328 \<and> reach cfg_328 At_write s1_328 \<and>
   fifoCount s1_328 = 1 \<and> fifoHead s1_328 = 1 \<and> fifoTail s1_328 = 0 \<and>
   FIFO_DIM cfg_328 = 64 \<and> write_count cfg_328 s1_328 = 1 \<and>
   fifoCount s1_328 \<le> FIFO_DIM cfg_328 \<and> fifoHead s1_328 < FIFO_DIM cfg_328 \<and>
   fifoTail s1_328 < FIFO_DIM cfg_328 \<and>
   fifoHead s1_328 = (fifoTail s1_328 + fifoCount s1_328) mod FIFO_DIM cfg_328 \<and>
   write_count cfg_328 s1_328 \<le> fifoCount s1_328"
proof -
  have "fifoCount s1_328 = 1 \<and> fifoHead s1_328 = 1 \<and> fifoTail s1_328 = 0 \<and>
   FIFO_DIM cfg_328 = 64 \<and> write_count cfg_328 s1_328 = 1"
    by (simp add: s1_328_def write_count_def cfg_328_simps)
  then show ?thesis
    using ring_buffer_invariant [OF wf_cfg_328 reach_s1_328] wf_cfg_328 reach_s1_328 by simp
qed

text \<open>
  C3. Before the write of an iteration, the number \<open>nw\<close> of records selected
  (\<open>write_count\<close>, lines 323--326) satisfies \<open>fifoTail + nw \<le> FIFO_DIM\<close> and
  \<open>nw * sizeof(data_t) \<le> 512\<close>; the byte count \<open>nb\<close> is that product (no wrap-around), and
  the write never reads outside the array. When the card is idle and the write succeeds,
  the records written are the first \<open>nw\<close> waiting records, and the others stay in the
  buffer, in order, for a later write.
\<close>

theorem write_span_bounded:
  assumes "wf_config cfg" and "reach cfg At_write s" and "\<not> isBusy inp"
  shows "fifoTail s + write_count cfg s \<le> FIFO_DIM cfg \<and>
         write_count cfg s * SIZEOF_DATA cfg \<le> 512 \<and>
         sz_mul cfg (write_count cfg s) (SIZEOF_DATA cfg) = write_count cfg s * SIZEOF_DATA cfg \<and>
         write_phase cfg inp s \<noteq> Out_of_bounds \<and>
         (\<forall>s'. write_phase cfg inp s = Next s' \<or> write_phase cfg inp s = Break s' \<longrightarrow>
            binFile s' = binFile s @ take (write_count cfg s) (buffered cfg s) \<and>
            buffered cfg s' = drop (write_count cfg s) (buffered cfg s) \<and>
            fifoCount s' = fifoCount s - write_count cfg s)"
proof -
  from reach_inv [OF assms(1,2)] have inv: "ring_inv cfg s" and c: "0 < fifoCount s"
    by simp_all
  note b = write_count_bounds [OF assms(1) inv c]
  note f = written_fields [OF assms(1) inv c, of inp]
  have bytes: "write_count cfg s * SIZEOF_DATA cfg \<le> 512"
    using b(3) by (rule write_bytes_bounded)
  have "write_count cfg s * SIZEOF_DATA cfg < 2 ^ SIZE_BITS cfg"
    using bytes size_t_holds_512 [OF assms(1)] by simp
  then have nb: "sz_mul cfg (write_count cfg s) (SIZEOF_DATA cfg)
                 = write_count cfg s * SIZEOF_DATA cfg"
    by (rule sz_mul_id)
  have oob: "write_phase cfg inp s \<noteq> Out_of_bounds"
    using assms(3) b(2) by (simp add: write_phase_idle)
  have post: "binFile s' = binFile s @ take (write_count cfg s) (buffered cfg s) \<and>
              buffered cfg s' = drop (write_count cfg s) (buffered cfg s) \<and>
              fifoCount s' = fifoCount s - write_count cfg s"
    if "write_phase cfg inp s = Next s' \<or> write_phase cfg inp s = Break s'" for s'
  proof -
    from that assms(3) have "s' = written cfg inp s"
      by (auto simp: write_phase_idle split: if_splits)
    then show ?thesis
      using f(4,5) written_takes_front [OF assms(1) inv c]
        written_leaves_rest [OF assms(1) inv c, of inp]
      by simp
  qed
  from b(2) bytes nb oob post show ?thesis by blast
qed

theorem write_span_bounded_witness:
  "wf_config cfg_328 \<and> reach cfg_328 At_write s1_328 \<and> \<not> isBusy inp_idle \<and>
   write_count cfg_328 s1_328 = 1 \<and>
   fifoTail s1_328 + write_count cfg_328 s1_328 \<le> FIFO_DIM cfg_328 \<and>
   write_count cfg_328 s1_328 * SIZEOF_DATA cfg_328 \<le> 512 \<and>
   write_phase cfg_328 inp_idle s1_328 \<noteq> Out_of_bounds"
proof -
  have b: "\<not> isBusy inp_idle" by (simp add: inp_idle_def)
  have "write_count cfg_328 s1_328 = 1"
    by (simp add: s1_328_def write_count_def cfg_328_simps)
  then show ?thesis
    using write_span_bounded [OF wf_cfg_328 reach_s1_328 b] wf_cfg_328 reach_s1_328 b by simp
qed

section \<open>Claims about the deadline\<close>

text \<open>
  C4. After \<open>K\<close> iterations, whatever the clock, the sensor, the card and the serial line
  answered in them, the due time \<open>logTime\<close> is its initial value plus \<open>K\<close> times
  \<open>LOG_INTERVAL_USEC\<close>, in 32-bit arithmetic; and when the loop is left by \<^verbatim>\<open>break\<close> in its
  \<open>k\<close>-th iteration the due time is the initial value plus \<open>k\<close> times the interval.
\<close>

theorem logTime_after_iterations:
  "(logLoop cfg s inps = Some (Next s') \<longrightarrow>
      logTime s' = logTime s + of_nat (length inps) * LOG_INTERVAL_USEC) \<and>
   (logLoop cfg s inps = Some (Break s') \<longrightarrow>
      (\<exists>k. 0 < k \<and> k \<le> length inps \<and> logTime s' = logTime s + of_nat k * LOG_INTERVAL_USEC))"
proof (induction inps arbitrary: s)
  case Nil
  show ?case by simp
next
  case (Cons inp inps)
  show ?case
  proof (cases "\<exists>s1. iteration cfg s inp = Some (Next s1)")
    case True
    then obtain s1 where i: "iteration cfg s inp = Some (Next s1)" by blast
    then have l: "logLoop cfg s (inp # inps) = logLoop cfg s1 inps" by simp
    from i have t: "logTime s1 = logTime s + LOG_INTERVAL_USEC" by (intro iteration_logTime disjI1)
    have n: "logTime s' = logTime s + of_nat (length (inp # inps)) * LOG_INTERVAL_USEC"
      if "logLoop cfg s1 inps = Some (Next s')"
      using Cons.IH [of s1] that t by (simp add: algebra_simps)
    have b: "\<exists>k. 0 < k \<and> k \<le> length (inp # inps) \<and>
               logTime s' = logTime s + of_nat k * LOG_INTERVAL_USEC"
      if "logLoop cfg s1 inps = Some (Break s')"
    proof -
      from Cons.IH [of s1] that obtain k where k: "0 < k" "k \<le> length inps"
        "logTime s' = logTime s1 + of_nat k * LOG_INTERVAL_USEC" by blast
      then have "0 < Suc k \<and> Suc k \<le> length (inp # inps) \<and>
                 logTime s' = logTime s + of_nat (Suc k) * LOG_INTERVAL_USEC"
        using t by (simp add: algebra_simps)
      then show ?thesis by blast
    qed
    show ?thesis unfolding l using n b by blast
  next
    case False
    then have l: "logLoop cfg s (inp # inps) = iteration cfg s inp"
      by (auto split: option.splits outcome.splits)
    have "logTime s' = logTime s + of_nat 1 * LOG_INTERVAL_USEC"
      if "iteration cfg s inp = Some (Break s')"
      using that by (simp add: iteration_logTime [of cfg s inp s'])
    then have "\<exists>k. 0 < k \<and> k \<le> length (inp # inps) \<and>
          logTime s' = logTime s + of_nat k * LOG_INTERVAL_USEC"
      if "iteration cfg s inp = Some (Break s')"
      using that by (intro exI [of _ 1]) simp
    then show ?thesis unfolding l using False by blast
  qed
qed

theorem logTime_after_iterations_witness:
  "logLoop cfg_328 (init_state 1000 0 fifo_328) [inp_idle, inp_late] = Some (Next s3_328) \<and>
   logTime (init_state 1000 0 fifo_328) = 1000 \<and> logTime s3_328 = 1000 + 2 * 2000 \<and>
   delta s2_328 = 2 \<and> delta s3_328 = 7"
  using logTime_after_iterations [of cfg_328 "init_state 1000 0 fifo_328" "[inp_idle, inp_late]" s3_328]
    logLoop_328
  by (simp add: init_state_def LOG_INTERVAL_USEC_def s2_328_def s3_328_def)

text \<open>
  C5. When the buffer is full, the push phase of the iteration (lines 291--315) stores no
  record: it ends in \<open>Next\<close> or in the halt of line 310, and in the state it leaves
  \<open>fifoHead\<close>, \<open>fifoTail\<close>, \<open>fifoCount\<close>, the whole array \<open>fifoData\<close> and every other variable
  are what they were, except \<open>overrun\<close> and \<open>totalOverrun\<close>, which are one more, and possibly
  the error LED. The waiting records are the same.
\<close>

theorem push_refused_when_full:
  assumes "fifoCount s = FIFO_DIM cfg"
  shows "\<exists>s'. (push_phase cfg inp s = Next s' \<or> push_phase cfg inp s = Halt Too_many_overruns s') \<and>
           fifoHead s' = fifoHead s \<and> fifoTail s' = fifoTail s \<and> fifoCount s' = fifoCount s \<and>
           fifoData s' = fifoData s \<and> buffered cfg s' = buffered cfg s \<and>
           overrun s' = overrun s + 1 \<and> totalOverrun s' = totalOverrun s + 1 \<and>
           s'\<lparr>overrun := overrun s, totalOverrun := totalOverrun s, errorLed := errorLed s\<rparr> = s"
proof -
  let ?s' = "s\<lparr>totalOverrun := totalOverrun s + 1, overrun := overrun s + 1\<rparr>"
  from assms have "\<not> fifoCount s < FIFO_DIM cfg" by simp
  then have "push_phase cfg inp s = Next ?s' \<or> push_phase cfg inp s = Halt Too_many_overruns ?s'"
    by (simp add: push_phase_full)
  moreover have "buffered cfg ?s' = buffered cfg s" by (simp add: buffered_def)
  ultimately show ?thesis by (intro exI [of _ ?s']) simp
qed

theorem push_refused_when_full_witness:
  "fifoCount s_full_328 = FIFO_DIM cfg_328 \<and>
   push_phase cfg_328 inp_busy s_full_328 = Next (s_full_328\<lparr>overrun := 5, totalOverrun := 5\<rparr>) \<and>
   (\<exists>s'. (push_phase cfg_328 inp_busy s_full_328 = Next s' \<or>
          push_phase cfg_328 inp_busy s_full_328 = Halt Too_many_overruns s') \<and>
         fifoHead s' = fifoHead s_full_328 \<and> fifoTail s' = fifoTail s_full_328 \<and>
         fifoCount s' = fifoCount s_full_328 \<and> fifoData s' = fifoData s_full_328 \<and>
         buffered cfg_328 s' = buffered cfg_328 s_full_328 \<and>
         overrun s' = overrun s_full_328 + 1 \<and> totalOverrun s' = totalOverrun s_full_328 + 1 \<and>
         s'\<lparr>overrun := overrun s_full_328, totalOverrun := totalOverrun s_full_328,
            errorLed := errorLed s_full_328\<rparr> = s_full_328)"
proof -
  have f: "fifoCount s_full_328 = FIFO_DIM cfg_328" by (simp add: s_full_328_def cfg_328_simps)
  have o: "overrun s_full_328 = 4" "totalOverrun s_full_328 = 4" by (simp_all add: s_full_328_def)
  have "push_phase cfg_328 inp_busy s_full_328 = Next (s_full_328\<lparr>overrun := 5, totalOverrun := 5\<rparr>)"
    by (simp add: push_phase_full f o)
  then show ?thesis
    using push_refused_when_full [OF f, of inp_busy] f by blast
qed

section \<open>Claims about the fatal conditions\<close>

text \<open>
  C8. In an iteration whose wait completes, the pending overrun streak is raised above
  \<open>0xFFF\<close> exactly when the buffer is full and the streak, counted up by line 308, exceeds
  \<open>0xFFF\<close>; then the loop halts with ``too many overruns'' whatever the later inputs are,
  having stored no record, written nothing to the file and not polled the serial line. In
  every other case the iteration goes on to its write: with a full buffer and a streak
  that stays at or below \<open>0xFFF\<close> the streak is counted and logging continues. So the
  streak is at most \<open>0xFFF\<close> in every state the loop reaches.
\<close>

theorem too_many_overruns_fatal:
  assumes "wf_config cfg" and "wait_phase inp s = Some (Next s1)"
  shows "(\<not> fifoCount s < FIFO_DIM cfg \<and> 0xFFF < overrun s + 1 \<longrightarrow>
            (\<exists>s'. logLoop cfg s (inp # inps) = Some (Halt Too_many_overruns s') \<and>
                  overrun s' = overrun s + 1 \<and> fifoData s' = fifoData s \<and>
                  fifoCount s' = fifoCount s \<and> binFile s' = binFile s \<and>
                  availCalls s' = availCalls s)) \<and>
         (\<not> fifoCount s < FIFO_DIM cfg \<and> overrun s + 1 \<le> 0xFFF \<longrightarrow>
            (\<exists>s'. sample_phase cfg inp s = Some (Next s') \<and> overrun s' = overrun s + 1 \<and>
                  totalOverrun s' = totalOverrun s + 1)) \<and>
         (fifoCount s < FIFO_DIM cfg \<longrightarrow>
            (\<forall>e s'. sample_phase cfg inp s \<noteq> Some (Halt e s'))) \<and>
         (\<forall>p t. reach cfg p t \<longrightarrow> overrun t \<le> 0xFFF)"
proof -
  note w = assms(2)
  from wait_phase_Next [OF w] obtain d where
    s1: "s1 = s\<lparr>logTime := logTime s + LOG_INTERVAL_USEC, delta := d\<rparr>" by blast
  let ?s2 = "s1\<lparr>totalOverrun := totalOverrun s1 + 1, overrun := overrun s1 + 1\<rparr>"
  have a: "\<exists>s'. logLoop cfg s (inp # inps) = Some (Halt Too_many_overruns s') \<and>
                  overrun s' = overrun s + 1 \<and> fifoData s' = fifoData s \<and>
                  fifoCount s' = fifoCount s \<and> binFile s' = binFile s \<and>
                  availCalls s' = availCalls s"
    if "\<not> fifoCount s < FIFO_DIM cfg" "0xFFF < overrun s + 1"
  proof -
    from that s1 have "push_phase cfg inp s1 = Halt Too_many_overruns ?s2"
      by (simp add: push_phase_full)
    then have "logLoop cfg s (inp # inps) = Some (Halt Too_many_overruns ?s2)"
      using w by (simp add: iteration_def sample_phase_def)
    then show ?thesis using s1 by (intro exI [of _ ?s2]) simp
  qed
  have b: "\<exists>s'. sample_phase cfg inp s = Some (Next s') \<and> overrun s' = overrun s + 1 \<and>
                  totalOverrun s' = totalOverrun s + 1"
    if "\<not> fifoCount s < FIFO_DIM cfg" "overrun s + 1 \<le> 0xFFF"
  proof -
    from that s1 have "push_phase cfg inp s1 = Next ?s2"
      by (simp add: push_phase_full not_less [symmetric])
    then have "sample_phase cfg inp s = Some (Next (save_jitter ?s2))"
      using w by (simp add: sample_phase_def)
    then show ?thesis using s1 by (intro exI [of _ "save_jitter ?s2"]) (simp add: save_jitter_def)
  qed
  have c: "sample_phase cfg inp s \<noteq> Some (Halt e s')" if "fifoCount s < FIFO_DIM cfg" for e s'
  proof -
    from that s1 have "push_phase cfg inp s1 \<noteq> Halt e s'"
      by (simp add: push_phase_def Let_def)
    then show ?thesis using w
      by (auto simp: sample_phase_def split: outcome.splits)
  qed
  have r: "overrun t \<le> 0xFFF" if "reach cfg p t" for p t
    using reach_inv [OF assms(1) that] by (simp add: ring_inv_def)
  from a b c r show ?thesis by blast
qed

theorem too_many_overruns_fatal_witness:
  "wf_config cfg_328 \<and>
   wait_phase inp_busy s_sat_328 = Some (Next (s_sat_328\<lparr>logTime := 141000\<rparr>)) \<and>
   \<not> fifoCount s_sat_328 < FIFO_DIM cfg_328 \<and> 0xFFF < overrun s_sat_328 + 1 \<and>
   (\<exists>s'. logLoop cfg_328 s_sat_328 [inp_busy, inp_idle] = Some (Halt Too_many_overruns s') \<and>
         overrun s' = overrun s_sat_328 + 1 \<and> fifoData s' = fifoData s_sat_328 \<and>
         fifoCount s' = fifoCount s_sat_328 \<and> binFile s' = binFile s_sat_328 \<and>
         availCalls s' = availCalls s_sat_328) \<and>
   wait_phase inp_busy s_full_328 = Some (Next (s_full_328\<lparr>logTime := 141000\<rparr>)) \<and>
   \<not> fifoCount s_full_328 < FIFO_DIM cfg_328 \<and> overrun s_full_328 + 1 \<le> 0xFFF \<and>
   (\<exists>s'. sample_phase cfg_328 inp_busy s_full_328 = Some (Next s') \<and>
         overrun s' = overrun s_full_328 + 1 \<and> totalOverrun s' = totalOverrun s_full_328 + 1) \<and>
   reach cfg_328 At_write s1_328 \<and> overrun s1_328 \<le> 0xFFF"
proof -
  have a: "\<not> fifoCount s_sat_328 < FIFO_DIM cfg_328 \<and> 0xFFF < overrun s_sat_328 + 1"
    by (simp add: s_sat_328_def s_full_328_def cfg_328_simps)
  have b: "\<not> fifoCount s_full_328 < FIFO_DIM cfg_328 \<and> overrun s_full_328 + 1 \<le> 0xFFF"
    by (simp add: s_full_328_def cfg_328_simps)
  show ?thesis
    using too_many_overruns_fatal [OF wf_cfg_328 wait_full_328(2), of "[inp_idle]"]
      too_many_overruns_fatal [OF wf_cfg_328 wait_full_328(1), of "[]"]
      wf_cfg_328 wait_full_328 a b reach_s1_328
    by blast
qed

text \<open>
  C9. Line 278 advances the due time; if the clock, read once on line 281, is already past
  it (\<open>delta > 0\<close> as a signed 32-bit difference), the loop halts with ``Rate too fast''
  whatever the later inputs are, having sampled, stored and written nothing. Otherwise the
  loop spins on the clock (lines 287--289) up to its first reading that is not before the due
  time, and goes on with \<open>delta\<close> the lateness of that reading, which is not negative; as
  long as the clock stays before the due time the loop keeps spinning.
\<close>

theorem rate_too_fast_fatal:
  fixes s :: log_state and inp :: iter_in
  defines "due \<equiv> logTime s + LOG_INTERVAL_USEC"
  shows "(0 <s micros_281 inp - due \<longrightarrow>
            logLoop cfg s (inp # inps) =
              Some (Halt Rate_too_fast (s\<lparr>logTime := due, delta := micros_281 inp - due\<rparr>))) \<and>
         (\<not> 0 <s micros_281 inp - due \<longrightarrow>
            wait_phase inp s =
              (if micros_281 inp - due = 0 then Some (Next (s\<lparr>logTime := due, delta := 0\<rparr>))
               else case dropWhile (\<lambda>t. t - due <s 0) (micros_288 inp) of
                      [] \<Rightarrow> None
                    | t # _ \<Rightarrow> Some (Next (s\<lparr>logTime := due, delta := t - due\<rparr>)))) \<and>
         (\<forall>s1. wait_phase inp s = Some (Next s1) \<longrightarrow> \<not> delta s1 <s 0)"
proof -
  let ?d = "micros_281 inp - due"
  have a: "logLoop cfg s (inp # inps) = Some (Halt Rate_too_fast (s\<lparr>logTime := due, delta := ?d\<rparr>))"
    if "0 <s ?d"
    using that by (simp add: iteration_def sample_phase_def wait_phase_def Let_def due_def)
  have b: "wait_phase inp s =
              (if ?d = 0 then Some (Next (s\<lparr>logTime := due, delta := 0\<rparr>))
               else case dropWhile (\<lambda>t. t - due <s 0) (micros_288 inp) of
                      [] \<Rightarrow> None
                    | t # _ \<Rightarrow> Some (Next (s\<lparr>logTime := due, delta := t - due\<rparr>)))"
    if n: "\<not> 0 <s ?d"
  proof (cases "?d <s 0")
    case True
    then have "?d \<noteq> 0" by auto
    with True n show ?thesis
      by (simp add: wait_phase_def Let_def due_def [symmetric] wait_loop_eq case_list_option
          cong: list.case_cong)
  next
    case False
    with n have "?d = 0" by (rule signed_zero)
    then show ?thesis
      by (simp add: wait_phase_def Let_def due_def [symmetric] wait_loop_eq)
  qed
  have c: "\<not> delta s1 <s 0" if "wait_phase inp s = Some (Next s1)" for s1
    using that wait_loop_fired
    by (auto simp: wait_phase_def Let_def split: if_splits option.splits)
  from a b c show ?thesis by blast
qed

theorem rate_too_fast_fatal_witness:
  "0 <s micros_281 inp_missed - (logTime s2_328 + LOG_INTERVAL_USEC) \<and>
   logLoop cfg_328 s2_328 [inp_missed, inp_idle] =
     Some (Halt Rate_too_fast (s2_328\<lparr>logTime := 5000, delta := 1\<rparr>)) \<and>
   \<not> 0 <s micros_281 inp_late - (logTime s2_328 + LOG_INTERVAL_USEC) \<and>
   wait_phase inp_late s2_328 = Some (Next (s2_328\<lparr>logTime := 5000, delta := 7\<rparr>))"
proof -
  have d: "logTime s2_328 + LOG_INTERVAL_USEC = 5000" "micros_281 inp_missed = 5001"
    "micros_281 inp_late = 4000" "micros_288 inp_late = [4500, 5007]"
    by (simp_all add: s2_328_def LOG_INTERVAL_USEC_def inp_missed_def inp_late_def)
  show ?thesis
    using rate_too_fast_fatal [of inp_missed s2_328 cfg_328 "[inp_idle]"]
      rate_too_fast_fatal [of inp_late s2_328 cfg_328 "[]"]
    by (simp add: d word_sless_alt)
qed

section \<open>Claims about the stop signal\<close>

text \<open>
  C7 (as amended). The poll of the stop signal (\<^verbatim>\<open>Serial.available()\<close>, line 341) stands
  inside the block that runs only when the card is not busy. In an iteration whose
  sampling completes: if the card is busy, the signal is not polled and the loop goes on,
  set or not; if the card is idle, either the write fails and the session halts without a
  poll, or the write succeeds, the signal is polled exactly once, after the sampling and
  the write of that iteration are done, and the loop exits by \<^verbatim>\<open>break\<close> exactly when it is
  set, in the state in which it would otherwise have gone on.
\<close>

theorem stop_polled_when_idle:
  assumes "sample_phase cfg inp s = Some (Next s2)"
  shows "(isBusy inp \<longrightarrow>
            iteration cfg s inp = Some (Next s2) \<and> availCalls s2 = availCalls s) \<and>
         (\<not> isBusy inp \<longrightarrow>
            iteration cfg s inp = Some Out_of_bounds \<or>
            (iteration cfg s inp = Some (Halt Write_binFile_failed s2) \<and>
               availCalls s2 = availCalls s) \<or>
            (\<exists>s'. iteration cfg s inp = Some (if available inp \<noteq> 0 then Break s' else Next s') \<and>
                  availCalls s' = availCalls s + 1 \<and>
                  binFile s' = binFile s2 @
                    take (write_count cfg s2) (drop (fifoTail s2) (fifoData s2))))"
proof -
  have i: "iteration cfg s inp = Some (write_phase cfg inp s2)"
    using assms by (simp add: iteration_def)
  have a: "availCalls s2 = availCalls s"
    using assms by (rule sample_phase_availCalls)
  have b: "iteration cfg s inp = Some (Next s2)" if "isBusy inp"
    using that i by (simp add: write_phase_busy)
  have w: "availCalls (written cfg inp s2) = availCalls s + 1"
    "binFile (written cfg inp s2) = binFile s2 @
       take (write_count cfg s2) (drop (fifoTail s2) (fifoData s2))"
    using a by (simp_all add: written_def Let_def)
  have c: "iteration cfg s inp = Some Out_of_bounds \<or>
            (iteration cfg s inp = Some (Halt Write_binFile_failed s2) \<and>
               availCalls s2 = availCalls s) \<or>
            (\<exists>s'. iteration cfg s inp = Some (if available inp \<noteq> 0 then Break s' else Next s') \<and>
                  availCalls s' = availCalls s + 1 \<and>
                  binFile s' = binFile s2 @
                    take (write_count cfg s2) (drop (fifoTail s2) (fifoData s2)))"
    if idle: "\<not> isBusy inp"
  proof -
    consider "write_phase cfg inp s2 = Out_of_bounds"
      | "write_phase cfg inp s2 = Halt Write_binFile_failed s2"
      | "write_phase cfg inp s2 =
           (if available inp \<noteq> 0 then Break (written cfg inp s2) else Next (written cfg inp s2))"
      using write_phase_idle [OF idle, of cfg s2]
      by (cases "FIFO_DIM cfg < fifoTail s2 + write_count cfg s2";
          cases "sz_mul cfg (write_count cfg s2) (SIZEOF_DATA cfg) \<noteq> write_ret inp"; simp)
    then show ?thesis
    proof cases
      case 1
      then show ?thesis using i by simp
    next
      case 2
      then show ?thesis using i a by simp
    next
      case 3
      then have "iteration cfg s inp =
          Some (if available inp \<noteq> 0 then Break (written cfg inp s2) else Next (written cfg inp s2))"
        using i by simp
      with w show ?thesis by blast
    qed
  qed
  from a b c show ?thesis by blast
qed

theorem stop_polled_when_idle_witness:
  "sample_phase cfg_328 inp_stop (init_state 1000 0 fifo_328) = Some (Next s1_328) \<and>
   \<not> isBusy inp_stop \<and> available inp_stop \<noteq> 0 \<and>
   iteration cfg_328 (init_state 1000 0 fifo_328) inp_stop = Some (Break s2_328) \<and>
   availCalls s2_328 = availCalls (init_state 1000 0 fifo_328) + 1 \<and>
   sample_phase cfg_328 inp_late s2_328 = Some (Next s3_328) \<and>
   isBusy inp_late \<and> available inp_late \<noteq> 0 \<and>
   iteration cfg_328 s2_328 inp_late = Some (Next s3_328) \<and>
   availCalls s3_328 = availCalls s2_328"
proof -
  have f: "\<not> isBusy inp_stop" "available inp_stop \<noteq> 0" "isBusy inp_late" "available inp_late \<noteq> 0"
    by (simp_all add: inp_stop_def inp_idle_def inp_late_def)
  have i: "iteration cfg_328 (init_state 1000 0 fifo_328) inp_stop = Some (Break s2_328)"
    by (simp add: iteration_def sample_328_stop write_328_stop)
  have a: "availCalls s2_328 = availCalls (init_state 1000 0 fifo_328) + 1"
    by (simp add: s2_328_def init_state_def)
  show ?thesis
    using stop_polled_when_idle [OF sample_328_stop] stop_polled_when_idle [OF sample_328_late]
      sample_328_stop sample_328_late f i a
    by simp
qed

text \<open>
  C7 as stated fails: in the second iteration of the example the stop signal is set, but
  the card is busy; the signal is not polled and the loop goes on.
\<close>

theorem stop_not_polled_counterexample:
  "available inp_late \<noteq> 0 \<and> iteration cfg_328 s2_328 inp_late = Some (Next s3_328) \<and>
   availCalls s3_328 = availCalls s2_328"
proof -
  have a: "available inp_late \<noteq> 0" by (simp add: inp_late_def)
  have b: "availCalls s3_328 = availCalls s2_328" by (simp add: s2_328_def s3_328_def)
  from a iteration_328_2 b show ?thesis by blast
qed

section \<open>Claims about the markers the loop stores\<close>

text \<open>
  C10. Whenever the loop stores an overrun marker (an iteration that starts with a pending
  streak and finds room in the buffer), the count it encodes, the streak plus one, is at
  most \<open>0x1000\<close> and has no bit in common with the tag \<open>0x8000\<close>; the first field of the
  stored record is the tag OR that count, so its tag bit is set (the marker test of
  \<^verbatim>\<open>printRecord\<close> succeeds) and its low 15 bits are the encoded count, which
  \<^verbatim>\<open>printRecord\<close> prints.
\<close>

theorem marker_tag_and_count:
  assumes "wf_config cfg" and "reach cfg At_head s"
    and "sample_phase cfg inp s = Some (Next s')"
    and "fifoCount s < FIFO_DIM cfg" and "overrun s \<noteq> 0"
  shows "overrun s + 1 \<le> 0x1000 \<and> (overrun s + 1) AND 0x8000 = 0 \<and>
         adc (fifoData s' ! fifoHead s) ! 0 = 0x8000 OR (overrun s + 1) \<and>
         adc (fifoData s' ! fifoHead s) ! 0 AND 0x8000 \<noteq> 0 \<and>
         adc (fifoData s' ! fifoHead s) ! 0 AND 0x7FFF = overrun s + 1 \<and>
         printRecord cfg nr (Some (fifoData s' ! fifoHead s)) =
           (nr + ucast (overrun s + 1),
            [PrStr ''-1,'', PrU16 (overrun s + 1), PrStr '',overuns'', PrLn])"
proof -
  from reach_inv [OF assms(1,2)] have inv: "ring_inv cfg s" by simp
  from assms(3) obtain s1 s2 where w: "wait_phase inp s = Some (Next s1)"
    and p: "push_phase cfg inp s1 = Next s2" and j: "s' = save_jitter s2"
    by (rule sample_phase_Next)
  from wait_phase_Next [OF w] obtain d where
    s1: "s1 = s\<lparr>logTime := logTime s + LOG_INTERVAL_USEC, delta := d\<rparr>" by blast
  from inv w have inv1: "ring_inv cfg s1" by (rule wait_phase_inv)
  from assms(4) s1 have c1: "fifoCount s1 < FIFO_DIM cfg" by simp
  let ?slot = "fifoData s ! fifoHead s"
  let ?r = "logRecord cfg (analogRead inp) ?slot (overrun s)"
  from inv have h: "fifoHead s < FIFO_DIM cfg" "length (fifoData s) = FIFO_DIM cfg"
    "wf_fifo cfg (fifoData s)" "overrun s \<le> 0xFFF"
    by (simp_all add: ring_inv_def wf_fifo_def)
  from push_phase_fields(1) [OF assms(1) inv1 p c1] s1 j
  have "fifoData s' = (fifoData s)[fifoHead s := ?r]" by (simp add: save_jitter_def)
  with h have slot: "fifoData s' ! fifoHead s = ?r" by simp
  from assms(1) have "0 < ADC_COUNT cfg" by (simp add: wf_config_def)
  with wf_fifo_nth [OF h(3) h(1)] have ne: "adc ?slot \<noteq> []" by auto
  from streak_succ_bounded [OF h(4)] have b: "overrun s + 1 \<le> 0x1000" "overrun s + 1 < 0x8000" .
  have a: "adc ?r ! 0 = 0x8000 OR (overrun s + 1)"
    using assms(5) ne by (simp add: logRecord_marker)
  have t: "adc ?r ! 0 AND 0x8000 \<noteq> 0"
    unfolding a by (simp add: tag_or_and_tag)
  have m: "adc ?r ! 0 AND 0x7FFF = overrun s + 1"
    unfolding a using b(2) by (rule tag_or_and_mask)
  have pr: "printRecord cfg nr (Some ?r) =
           (nr + ucast (overrun s + 1),
            [PrStr ''-1,'', PrU16 (overrun s + 1), PrStr '',overuns'', PrLn])"
    using t m by (simp add: Let_def)
  from b(1) below_tag_bit [OF b(2)] a t m pr show ?thesis
    unfolding slot by blast
qed

theorem marker_tag_and_count_witness:
  "wf_config cfg_pad \<and> reach cfg_pad At_head s3_pad \<and>
   sample_phase cfg_pad (tick 9000 True) s3_pad = Some (Next s4_pad) \<and>
   fifoCount s3_pad < FIFO_DIM cfg_pad \<and> overrun s3_pad \<noteq> 0 \<and>
   overrun s3_pad + 1 = 2 \<and> fifoData s4_pad ! fifoHead s3_pad = \<lparr>adc = [0x8002, 101]\<rparr> \<and>
   adc (fifoData s4_pad ! fifoHead s3_pad) ! 0 AND 0x8000 \<noteq> 0 \<and>
   adc (fifoData s4_pad ! fifoHead s3_pad) ! 0 AND 0x7FFF = 2 \<and>
   printRecord cfg_pad 2 (Some (fifoData s4_pad ! fifoHead s3_pad)) =
     (4, [PrStr ''-1,'', PrU16 2, PrStr '',overuns'', PrLn])"
proof -
  have c: "fifoCount s3_pad < FIFO_DIM cfg_pad" "overrun s3_pad \<noteq> 0"
    by (simp_all add: s3_pad_def cfg_pad_simps)
  have v: "overrun s3_pad + 1 = 2" "fifoData s4_pad ! fifoHead s3_pad = \<lparr>adc = [0x8002, 101]\<rparr>"
    by (simp_all add: s3_pad_def s4_pad_def)
  show ?thesis
    using marker_tag_and_count [OF wf_cfg_pad reach_s3_pad sample_pad_4 c, of 2]
      wf_cfg_pad reach_s3_pad sample_pad_4 c v
    by simp
qed

end
